theory Spec2Isabelle
  imports Main "HOL-Library.Word"
begin

section \<open>Go run-time notions shared by the plugins\<close>

text \<open>
  A call of the program either returns, or parks its goroutine on a channel operation
  that cannot proceed in the present state, or panics.
\<close>

datatype 'a outcome = Done 'a | Blocked | Panic

fun outcome_bind :: "'a outcome \<Rightarrow> ('a \<Rightarrow> 'b outcome) \<Rightarrow> 'b outcome" where
  "outcome_bind (Done x) f = f x"
| "outcome_bind Blocked f = Blocked"
| "outcome_bind Panic f = Panic"

fun outcome_map :: "('a \<Rightarrow> 'b) \<Rightarrow> 'a outcome \<Rightarrow> 'b outcome" where
  "outcome_map f (Done x) = Done (f x)"
| "outcome_map f Blocked = Blocked"
| "outcome_map f Panic = Panic"

text \<open>
  A buffered channel \<^verbatim>\<open>make(chan T, n)\<close>: the buffered items, oldest first, the
  capacity, and whether \<^verbatim>\<open>close\<close> has been called.
\<close>

record 'a chan =
  chan_buf :: "'a list"
  chan_cap :: nat
  chan_closed :: bool

definition make_chan :: "nat \<Rightarrow> 'a chan" where
  "make_chan n = \<lparr>chan_buf = [], chan_cap = n, chan_closed = False\<rparr>"

text \<open>\<^verbatim>\<open>ch <- x\<close>: panics on a closed channel, waits while the buffer is full.\<close>

definition chan_send :: "'a chan \<Rightarrow> 'a \<Rightarrow> 'a chan outcome" where
  "chan_send c x =
     (if chan_closed c then Panic
      else if length (chan_buf c) < chan_cap c then Done (c\<lparr>chan_buf := chan_buf c @ [x]\<rparr>)
      else Blocked)"

text \<open>
  \<^verbatim>\<open>select { case ch <- x: ... default: ... }\<close>: the boolean tells which branch ran.
  The send still panics on a closed channel.
\<close>

definition chan_try_send :: "'a chan \<Rightarrow> 'a \<Rightarrow> ('a chan \<times> bool) outcome" where
  "chan_try_send c x =
     (if chan_closed c then Panic
      else if length (chan_buf c) < chan_cap c then Done (c\<lparr>chan_buf := chan_buf c @ [x]\<rparr>, True)
      else Done (c, False))"

text \<open>\<^verbatim>\<open>close(ch)\<close>: closing a closed channel panics.\<close>

definition chan_close :: "'a chan \<Rightarrow> 'a chan outcome" where
  "chan_close c = (if chan_closed c then Panic else Done (c\<lparr>chan_closed := True\<rparr>))"

text \<open>
  One receive of \<^verbatim>\<open>for x := range ch\<close>: the oldest item, or \<open>None\<close> when the channel
  is closed and drained (the loop ends), or a wait.
\<close>

definition chan_recv :: "'a chan \<Rightarrow> ('a option \<times> 'a chan) outcome" where
  "chan_recv c =
     (case chan_buf c of
        x # xs \<Rightarrow> Done (Some x, c\<lparr>chan_buf := xs\<rparr>)
      | [] \<Rightarrow> if chan_closed c then Done (None, c) else Blocked)"

type_synonym byte = "8 word"
type_synonym bytes = "byte list"

text \<open>A local temp file (\<^verbatim>\<open>*os.File\<close>), identified by the number that makes its name unique.\<close>

type_synonym osfile = nat

text \<open>An \<^verbatim>\<open>error\<close> value, identified by the text of its \<^verbatim>\<open>Error()\<close>; \<open>None\<close> is \<^verbatim>\<open>nil\<close>.\<close>

type_synonym error = string

section \<open>The retrying sink: package awsS3\<close>

definition maxRetry :: nat where
  "maxRetry = 10"

definition fileChSize :: nat where
  "fileChSize = 1000"

definition bytesChSize :: nat where
  "bytesChSize = 1000"

definition errAccessDenied :: string where
  "errAccessDenied = ''AccessDenied''"

definition errSignatureDoesNotMatch :: string where
  "errSignatureDoesNotMatch = ''SignatureDoesNotMatch''"

text \<open>
  What \<^verbatim>\<open>req.Send()\<close> of the S3 client answers: success, an \<^verbatim>\<open>awserr.Error\<close> with its
  code and message, or any other error with its message.
\<close>

datatype send_result = SendOk | AwsErr string string | OtherErr string

text \<open>
  The sink with the part of the world it acts on. \<open>listening\<close> says that \<^verbatim>\<open>New\<close> loaded
  the AWS configuration and started \<^verbatim>\<open>go p.listen()\<close>; \<open>done_taken\<close> that the one value
  \<^verbatim>\<open>listen\<close> sends on \<^verbatim>\<open>p.done\<close> has been received. The remote store is the environment:
  \<open>send_oracle n\<close> is the answer to the \<open>n\<close>-th put request of the process, \<open>put_calls\<close>
  counts the requests made, \<open>sleeps\<close> the \<^verbatim>\<open>time.Sleep(sleepRetry)\<close> pauses, and
  \<open>local_files\<close> is the set of temp files present on disk. The object key (time, host
  name, hash, random suffix) is part of the request and not of its outcome, so it is left
  out, as are the log lines.
\<close>

record AwsS3 =
  fileCh :: "osfile chan"
  bytesCh :: "bytes chan"
  listening :: bool
  done_taken :: bool
  send_oracle :: "nat \<Rightarrow> send_result"
  put_calls :: nat
  sleeps :: nat
  local_files :: "osfile set"

text \<open>
  \<^verbatim>\<open>New\<close>: both queues are made with their fixed capacities; \<open>cfg_loaded\<close> is whether
  \<^verbatim>\<open>external.LoadDefaultAWSConfig\<close> succeeded (otherwise \<^verbatim>\<open>New\<close> returns before
  \<^verbatim>\<open>go p.listen()\<close>).
\<close>

definition AwsS3_New :: "bool \<Rightarrow> (nat \<Rightarrow> send_result) \<Rightarrow> osfile set \<Rightarrow> AwsS3" where
  "AwsS3_New cfg_loaded oracle files =
     \<lparr>fileCh = make_chan fileChSize, bytesCh = make_chan bytesChSize,
      listening = cfg_loaded, done_taken = False,
      send_oracle = oracle, put_calls = 0, sleeps = 0, local_files = files\<rparr>"

definition SendFile :: "AwsS3 \<Rightarrow> osfile \<Rightarrow> (AwsS3 \<times> error option) outcome" where
  "SendFile p f =
     (case chan_try_send (fileCh p) f of
        Done (c, True) \<Rightarrow> Done (p\<lparr>fileCh := c\<rparr>, None)
      | Done (c, False) \<Rightarrow> Done (p, Some ''Files channel full'')
      | Blocked \<Rightarrow> Blocked
      | Panic \<Rightarrow> Panic)"

text \<open>
  \<^verbatim>\<open>putObject\<close>: one request. An AWS error is replaced by a new error whose text is the
  error code; any other error is returned as it is.
\<close>

definition putObject :: "AwsS3 \<Rightarrow> AwsS3 \<times> error option" where
  "putObject p =
     (let p' = p\<lparr>put_calls := put_calls p + 1\<rparr> in
      case send_oracle p (put_calls p) of
        SendOk \<Rightarrow> (p', None)
      | AwsErr code msg \<Rightarrow> (p', Some code)
      | OtherErr msg \<Rightarrow> (p', Some msg))"

definition os_Remove :: "AwsS3 \<Rightarrow> osfile \<Rightarrow> AwsS3" where
  "os_Remove p f = p\<lparr>local_files := local_files p - {f}\<rparr>"

definition time_Sleep :: "AwsS3 \<Rightarrow> AwsS3" where
  "time_Sleep p = p\<lparr>sleeps := sleeps p + 1\<rparr>"

text \<open>
  The \<^verbatim>\<open>for\<close> loop of \<^verbatim>\<open>sendFile\<close>, with the local \<^verbatim>\<open>retry\<close> as an argument. The loop
  is left by \<^verbatim>\<open>break\<close> on success (then the file is removed and \<^verbatim>\<open>nil\<close> returned), by
  \<^verbatim>\<open>return err\<close> on the two error texts of the \<^verbatim>\<open>switch\<close>, or by the retry bound.
\<close>

function sendFile_loop :: "AwsS3 \<Rightarrow> osfile \<Rightarrow> nat \<Rightarrow> AwsS3 \<times> error option" where
  "sendFile_loop p f retry =
     (case putObject p of
        (p1, None) \<Rightarrow> (os_Remove p1 f, None)
      | (p1, Some e) \<Rightarrow>
          if e = errAccessDenied \<or> e = errSignatureDoesNotMatch then (p1, Some e)
          else if retry + 1 \<ge> maxRetry then (p1, Some ''Maximum errors uploading'')
          else sendFile_loop (time_Sleep p1) f (retry + 1))"
  by pat_completeness auto
termination
  by (relation "measure (\<lambda>(p, f, retry). maxRetry - retry)") auto

definition sendFile :: "AwsS3 \<Rightarrow> osfile \<Rightarrow> AwsS3 \<times> error option" where
  "sendFile p f = sendFile_loop p f 0"

text \<open>
  The upload worker of \<^verbatim>\<open>listen\<close>: \<^verbatim>\<open>for f := range p.fileCh { p.sendFile(f) }\<close> over the
  files it receives; the error of \<^verbatim>\<open>sendFile\<close> is dropped.
\<close>

fun files_worker :: "AwsS3 \<Rightarrow> osfile list \<Rightarrow> AwsS3" where
  "files_worker p [] = p"
| "files_worker p (f # fs) = files_worker (fst (sendFile p f)) fs"

text \<open>
  The older revision of the package (the second unnamed source part): \<^verbatim>\<open>putObject\<close>
  returns the error of the request unchanged, and \<^verbatim>\<open>sendFile\<close> has no \<^verbatim>\<open>switch\<close> on
  the error text.
\<close>

definition putObject_old :: "AwsS3 \<Rightarrow> AwsS3 \<times> error option" where
  "putObject_old p =
     (let p' = p\<lparr>put_calls := put_calls p + 1\<rparr> in
      case send_oracle p (put_calls p) of
        SendOk \<Rightarrow> (p', None)
      | AwsErr code msg \<Rightarrow> (p', Some (code @ '': '' @ msg))
      | OtherErr msg \<Rightarrow> (p', Some msg))"

function sendFile_loop_old :: "AwsS3 \<Rightarrow> osfile \<Rightarrow> nat \<Rightarrow> AwsS3 \<times> error option" where
  "sendFile_loop_old p f retry =
     (case putObject_old p of
        (p1, None) \<Rightarrow> (os_Remove p1 f, None)
      | (p1, Some e) \<Rightarrow>
          if retry + 1 \<ge> maxRetry then (p1, Some ''Maximum errors uploading'')
          else sendFile_loop_old (time_Sleep p1) f (retry + 1))"
  by pat_completeness auto
termination
  by (relation "measure (\<lambda>(p, f, retry). maxRetry - retry)") auto

definition sendFile_old :: "AwsS3 \<Rightarrow> osfile \<Rightarrow> AwsS3 \<times> error option" where
  "sendFile_old p f = sendFile_loop_old p f 0"

fun files_worker_old :: "AwsS3 \<Rightarrow> osfile list \<Rightarrow> AwsS3" where
  "files_worker_old p [] = p"
| "files_worker_old p (f # fs) = files_worker_old (fst (sendFile_old p f)) fs"

text \<open>An error text that the \<^verbatim>\<open>switch\<close> of \<^verbatim>\<open>sendFile\<close> does not return on.\<close>

definition retryable :: "send_result \<Rightarrow> bool" where
  "retryable r =
     (case r of
        SendOk \<Rightarrow> False
      | AwsErr code msg \<Rightarrow> code \<noteq> errAccessDenied \<and> code \<noteq> errSignatureDoesNotMatch
      | OtherErr msg \<Rightarrow> msg \<noteq> errAccessDenied \<and> msg \<noteq> errSignatureDoesNotMatch)"

definition fatal :: "send_result \<Rightarrow> bool" where
  "fatal r =
     (case r of
        SendOk \<Rightarrow> False
      | AwsErr code msg \<Rightarrow> code = errAccessDenied \<or> code = errSignatureDoesNotMatch
      | OtherErr msg \<Rightarrow> msg = errAccessDenied \<or> msg = errSignatureDoesNotMatch)"


section \<open>The rotating aggregator: package file, queue-based\<close>

definition newLine :: byte where
  "newLine = 10"

definition defaultLimitLines :: "64 word" where
  "defaultLimitLines = 99999"

definition defaultBufSize :: nat where
  "defaultBufSize = 4096"

text \<open>\<^verbatim>\<open>bytes.Count(b, newLine)\<close>: the separator is one byte, so this counts its occurrences.\<close>

definition count_newlines :: "bytes \<Rightarrow> nat" where
  "count_newlines b = length (filter (\<lambda>c. c = newLine) b)"

text \<open>
  The environment of the aggregator, as the finitely many faults of a run:
  \<open>temp_fails\<close> lists the calls of \<^verbatim>\<open>ioutil.TempFile\<close> (counted from 0) that fail;
  \<open>write_faults\<close> maps the number of a write to a temp file to the count of bytes after
  which it fails; \<open>sendfile_errs\<close> maps the number of a call of the bound output's
  \<^verbatim>\<open>SendFile\<close> to the error it returns. Every other call succeeds.
\<close>

record env =
  temp_fails :: "nat list"
  write_faults :: "(nat \<times> nat) list"
  sendfile_errs :: "(nat \<times> error) list"

text \<open>
  A \<^verbatim>\<open>*gzip.Writer\<close>. The properties below are about the bytes of a segment up to compression, so a
  file's contents stand for its payload: the stream keeps the payload written to it and
  \<^verbatim>\<open>Close\<close> brings it to the file underneath. A write to a closed stream is refused
  (an error the caller drops), and a second \<^verbatim>\<open>Close\<close> does nothing.
\<close>

record gzWriter =
  gz_file :: osfile
  gz_pending :: bytes
  gz_closed :: bool

text \<open>Where the \<^verbatim>\<open>reader\<close> goroutine stands: before its first \<^verbatim>\<open>reset\<close>, in the
  \<^verbatim>\<open>range\<close> loop, or past it with its value on \<^verbatim>\<open>a.done\<close> received.\<close>

datatype reader_pc = Starting | Ranging | Finished

text \<open>
  The aggregator and the world it acts on. \<open>contents\<close> is the payload of each temp file,
  \<open>temp_calls\<close> and \<open>write_calls\<close> count the calls that the environment answers, and
  \<open>handed\<close> lists the files passed to the bound output's \<^verbatim>\<open>SendFile\<close>, oldest first.
  The buffer pool only recycles the copies that travel through \<^verbatim>\<open>bufCh\<close>; the name, the
  mutex and the unused \<^verbatim>\<open>flushing\<close> word are left out.
\<close>

record File =
  bufCh :: "bytes chan"
  tmp :: "osfile option"
  gz :: "gzWriter option"
  compress :: bool
  compressLevel :: int
  linesLimit :: "64 word"
  size' :: "64 word"
  lines :: "64 word"
  rd :: reader_pc
  contents :: "osfile \<Rightarrow> bytes"
  temp_calls :: nat
  write_calls :: nat
  handed :: "osfile list"
  world :: env

text \<open>
  A value of the configuration map (\<^verbatim>\<open>interface{}\<close> as the TOML decoder produces it):
  a bool, an int64 (kept as its 64 bits), or anything else.
\<close>

datatype cfg_value = VBool bool | VInt "64 word" | VOther

text \<open>\<^verbatim>\<open>strings.ToLower\<close> on the ASCII letters, which is all the option names contain.\<close>

definition to_lower :: "char \<Rightarrow> char" where
  "to_lower c =
     (let n = (of_char c :: nat) in if 65 \<le> n \<and> n \<le> 90 then char_of (n + 32) else c)"

text \<open>
  One turn of the loop over the configuration in \<^verbatim>\<open>New\<close>. A type assertion on a value
  of another type panics. \<^verbatim>\<open>uint64(v.(int64))\<close> keeps the bits; \<^verbatim>\<open>int(v.(int64))\<close> reads
  them signed.
\<close>

definition apply_cfg :: "File \<Rightarrow> string \<times> cfg_value \<Rightarrow> File outcome" where
  "apply_cfg a kv =
     (let k = map to_lower (fst kv); v = snd kv in
      if k = ''compress'' then
        (case v of VBool b \<Rightarrow> Done (a\<lparr>compress := b\<rparr>) | _ \<Rightarrow> Panic)
      else if k = ''compresslevel'' then
        (case v of VInt i \<Rightarrow> Done (a\<lparr>compressLevel := sint i\<rparr>) | _ \<Rightarrow> Panic)
      else if k = ''lineslimit'' then
        (case v of VInt i \<Rightarrow> Done (a\<lparr>linesLimit := i\<rparr>) | _ \<Rightarrow> Panic)
      else Done a)"

fun load_cfg :: "File \<Rightarrow> (string \<times> cfg_value) list \<Rightarrow> File outcome" where
  "load_cfg a [] = Done a"
| "load_cfg a (kv # kvs) = outcome_bind (apply_cfg a kv) (\<lambda>a'. load_cfg a' kvs)"

text \<open>
  \<^verbatim>\<open>New\<close>: the configuration is given in the order the \<^verbatim>\<open>range\<close> over the map visits it.
  The call ends with \<^verbatim>\<open>go a.reader()\<close>, so the reader is at its start.
\<close>

definition New :: "(string \<times> cfg_value) list \<Rightarrow> env \<Rightarrow> File outcome" where
  "New cfg e =
     outcome_bind
       (load_cfg
          \<lparr>bufCh = make_chan defaultBufSize, tmp = None, gz = None, compress = False,
           compressLevel = 0, linesLimit = 0, size' = 0, lines = 0, rd = Starting,
           contents = (\<lambda>f. []), temp_calls = 0, write_calls = 0, handed = [], world = e\<rparr>
          cfg)
       (\<lambda>a. Done (if linesLimit a = 0 then a\<lparr>linesLimit := defaultLimitLines\<rparr> else a))"

text \<open>\<^verbatim>\<open>ioutil.TempFile\<close>: a new, empty file under a name not used before, or an error.\<close>

definition TempFile :: "File \<Rightarrow> File \<times> osfile option" where
  "TempFile a =
     (let n = temp_calls a in
      if n \<notin> set (temp_fails (world a))
      then (a\<lparr>temp_calls := n + 1, contents := (contents a)(n := [])\<rparr>, Some n)
      else (a\<lparr>temp_calls := n + 1\<rparr>, None))"

text \<open>
  \<^verbatim>\<open>(*os.File).Write\<close>. On a nil file it returns \<^verbatim>\<open>ErrInvalid\<close>; the callers drop every
  error of a write, so only the effect on the file is kept.
\<close>

definition file_Write :: "File \<Rightarrow> osfile option \<Rightarrow> bytes \<Rightarrow> File" where
  "file_Write a fo b =
     (case fo of
        None \<Rightarrow> a
      | Some f \<Rightarrow>
          (let n = write_calls a;
               w = (case map_of (write_faults (world a)) n of None \<Rightarrow> b | Some k \<Rightarrow> take k b)
           in a\<lparr>write_calls := n + 1, contents := (contents a)(f := contents a f @ w)\<rparr>))"

text \<open>\<^verbatim>\<open>a.gz.Write(b.B)\<close>: a nil \<^verbatim>\<open>*gzip.Writer\<close> is dereferenced, which panics.\<close>

definition gz_Write :: "File \<Rightarrow> bytes \<Rightarrow> File outcome" where
  "gz_Write a b =
     (case gz a of
        None \<Rightarrow> Panic
      | Some g \<Rightarrow>
          Done (if gz_closed g then a else a\<lparr>gz := Some (g\<lparr>gz_pending := gz_pending g @ b\<rparr>)\<rparr>))"

definition gz_Close :: "File \<Rightarrow> File" where
  "gz_Close a =
     (case gz a of
        None \<Rightarrow> a
      | Some g \<Rightarrow>
          if gz_closed g then a
          else (file_Write a (Some (gz_file g)) (gz_pending g))
                 \<lparr>gz := Some (g\<lparr>gz_pending := [], gz_closed := True\<rparr>)\<rparr>)"

text \<open>\<^verbatim>\<open>a.output.SendFile(lastTmp)\<close>: the call is recorded, the answer is the environment's.\<close>

definition output_SendFile :: "File \<Rightarrow> osfile \<Rightarrow> File \<times> error option" where
  "output_SendFile a f =
     (a\<lparr>handed := handed a @ [f]\<rparr>, map_of (sendfile_errs (world a)) (length (handed a)))"

definition flush :: "File \<Rightarrow> File \<times> error option" where
  "flush a =
     (let a1 = (if gz a \<noteq> None then gz_Close a else a) in
      case tmp a1 of
        Some f \<Rightarrow> output_SendFile a1 f
      | None \<Rightarrow> (a1, None))"

text \<open>
  \<^verbatim>\<open>reset\<close>: on an error of \<^verbatim>\<open>TempFile\<close> the assignment leaves \<^verbatim>\<open>a.tmp\<close> nil and the
  function returns before the counters are reset; likewise \<^verbatim>\<open>gzip.NewWriterLevel\<close>
  leaves \<^verbatim>\<open>a.gz\<close> nil for a level outside \<open>-2..9\<close>.
\<close>

definition reset :: "File \<Rightarrow> File \<times> error option" where
  "reset a =
     (case TempFile a of
        (a1, None) \<Rightarrow> (a1\<lparr>tmp := None\<rparr>, Some ''TempFile'')
      | (a1, Some f) \<Rightarrow>
          (let a2 = a1\<lparr>tmp := Some f\<rparr> in
           if compress a2 then
             (if - 2 \<le> compressLevel a2 \<and> compressLevel a2 \<le> 9
              then (a2\<lparr>gz := Some \<lparr>gz_file = f, gz_pending = [], gz_closed = False\<rparr>,
                        size' := 0, lines := 0\<rparr>, None)
              else (a2\<lparr>gz := None\<rparr>, Some ''gzip: invalid compression level''))
           else (a2\<lparr>size' := 0, lines := 0\<rparr>, None)))"

text \<open>
  The body of the \<^verbatim>\<open>range\<close> loop of \<^verbatim>\<open>reader\<close> for one block: append, count, and
  rotate when the line count has reached the limit. The results of the writes, of
  \<^verbatim>\<open>flush\<close> and of \<^verbatim>\<open>reset\<close> are dropped, as in the source.
\<close>

definition reader_body :: "File \<Rightarrow> bytes \<Rightarrow> File outcome" where
  "reader_body a b =
     outcome_bind (if compress a then gz_Write a b else Done (file_Write a (tmp a) b))
       (\<lambda>a1. let a2 = a1\<lparr>lines := lines a1 + of_nat (count_newlines b),
                           size' := size' a1 + of_nat (length b)\<rparr>
             in Done (if lines a2 \<ge> linesLimit a2 then fst (reset (fst (flush a2))) else a2))"

text \<open>
  One step of the reader goroutine while the aggregator runs: its first \<^verbatim>\<open>reset\<close>, or one
  turn of the loop. With the queue empty it waits; with the queue closed and drained it
  waits on \<^verbatim>\<open>a.done\<close> for \<^verbatim>\<open>Exit\<close>.
\<close>

definition reader_step :: "File \<Rightarrow> File outcome" where
  "reader_step a =
     (case rd a of
        Starting \<Rightarrow> Done ((fst (reset a))\<lparr>rd := Ranging\<rparr>)
      | Ranging \<Rightarrow>
          (case chan_recv (bufCh a) of
             Done (Some b, c) \<Rightarrow> reader_body (a\<lparr>bufCh := c\<rparr>) b
           | Done (None, c) \<Rightarrow> Blocked
           | Blocked \<Rightarrow> Blocked
           | Panic \<Rightarrow> Panic)
      | Finished \<Rightarrow> Blocked)"

text \<open>The \<^verbatim>\<open>range\<close> loop over the blocks it receives, in order.\<close>

fun range_loop :: "File \<Rightarrow> bytes list \<Rightarrow> File outcome" where
  "range_loop a [] = Done a"
| "range_loop a (b # bs) = outcome_bind (reader_body a b) (\<lambda>a'. range_loop a' bs)"

text \<open>
  What is left of \<^verbatim>\<open>reader\<close> once the queue is closed: the first \<^verbatim>\<open>reset\<close> if it has
  not run yet, the loop over the blocks still queued, and the send on \<^verbatim>\<open>a.done\<close>.
  A reader that has already finished sends nothing more, so the receiver waits.
\<close>

definition reader_finish :: "File \<Rightarrow> File outcome" where
  "reader_finish a =
     (let queued = chan_buf (bufCh a);
          a0 = a\<lparr>bufCh := (bufCh a)\<lparr>chan_buf := []\<rparr>\<rparr>
      in case rd a of
           Starting \<Rightarrow> outcome_map (\<lambda>a'. a'\<lparr>rd := Finished\<rparr>) (range_loop (fst (reset a0)) queued)
         | Ranging \<Rightarrow> outcome_map (\<lambda>a'. a'\<lparr>rd := Finished\<rparr>) (range_loop a0 queued)
         | Finished \<Rightarrow> Blocked)"

text \<open>\<^verbatim>\<open>Write\<close>: the block is copied into a pooled buffer and sent on the queue.\<close>

definition Write :: "File \<Rightarrow> bytes \<Rightarrow> (File \<times> int \<times> error option) outcome" where
  "Write a b =
     outcome_map (\<lambda>c. (a\<lparr>bufCh := c\<rparr>, int (length b), None)) (chan_send (bufCh a) b)"

text \<open>\<^verbatim>\<open>Exit\<close>: \<^verbatim>\<open>close(a.bufCh)\<close>, \<^verbatim>\<open><-a.done\<close>, \<^verbatim>\<open>a.flush()\<close>.\<close>

definition Exit :: "File \<Rightarrow> File outcome" where
  "Exit a =
     outcome_bind (chan_close (bufCh a))
       (\<lambda>c. outcome_bind (reader_finish (a\<lparr>bufCh := c\<rparr>)) (\<lambda>a1. Done (fst (flush a1))))"

text \<open>
  A run of the aggregator before \<^verbatim>\<open>Exit\<close>: calls of \<^verbatim>\<open>Write\<close> by the producer and steps
  of the reader goroutine, in the order they take effect. A run in which a step cannot
  take place at its turn is not a run of the program (its outcome is not \<open>Done\<close>).
\<close>

datatype event = EvWrite bytes | EvReader

fun exec :: "File \<Rightarrow> event list \<Rightarrow> File outcome" where
  "exec a [] = Done a"
| "exec a (EvWrite b # es) = outcome_bind (Write a b) (\<lambda>r. exec (fst r) es)"
| "exec a (EvReader # es) = outcome_bind (reader_step a) (\<lambda>a'. exec a' es)"

fun written :: "event list \<Rightarrow> bytes list" where
  "written [] = []"
| "written (EvWrite b # es) = b # written es"
| "written (EvReader # es) = written es"

text \<open>The environment in which temp files can be created and written.\<close>

definition io_ok :: "env \<Rightarrow> bool" where
  "io_ok e = (temp_fails e = [] \<and> write_faults e = [])"

text \<open>The bytes of the open segment: those in its file and those in its open stream.\<close>

definition active :: "File \<Rightarrow> bytes" where
  "active a =
     (case tmp a of
        None \<Rightarrow> []
      | Some f \<Rightarrow>
          contents a f @
          (case gz a of
             None \<Rightarrow> []
           | Some g \<Rightarrow> if gz_closed g then [] else gz_pending g))"

text \<open>The contents of the files handed to the output, oldest first.\<close>

definition sealed :: "File \<Rightarrow> bytes list" where
  "sealed a = map (contents a) (handed a)"

text \<open>
  The writer task as the specification words it: each block is appended to the active
  segment; when the newline count of the segment has reached the limit, the segment is
  sealed and handed off and an empty one takes its place. The result is the list of
  sealed segments and the active one.
\<close>

fun spec_writer :: "nat \<Rightarrow> bytes \<Rightarrow> bytes list \<Rightarrow> bytes list \<times> bytes" where
  "spec_writer L seg [] = ([], seg)"
| "spec_writer L seg (b # bs) =
     (if count_newlines (seg @ b) \<ge> L
      then ((seg @ b) # fst (spec_writer L [] bs), snd (spec_writer L [] bs))
      else spec_writer L (seg @ b) bs)"

text \<open>
  The reader holds an open segment: its file was created by \<^verbatim>\<open>TempFile\<close>, has not been
  handed off, and the compression stream (if configured) is open on it.
\<close>

definition seg_open :: "File \<Rightarrow> bool" where
  "seg_open a =
     (case tmp a of
        None \<Rightarrow> False
      | Some f \<Rightarrow>
          f < temp_calls a \<and> f \<notin> set (handed a) \<and> list_all (\<lambda>h. h < temp_calls a) (handed a)
          \<and> distinct (handed a)
          \<and> (if compress a
              then (case gz a of None \<Rightarrow> False | Some g \<Rightarrow> gz_file g = f \<and> \<not> gz_closed g)
              else gz a = None))"

text \<open>The compression level is one that \<^verbatim>\<open>gzip.NewWriterLevel\<close> accepts.\<close>

definition level_ok :: "File \<Rightarrow> bool" where
  "level_ok a = (compress a \<longrightarrow> - 2 \<le> compressLevel a \<and> compressLevel a \<le> 9)"

text \<open>The fields that only \<^verbatim>\<open>New\<close>, \<^verbatim>\<open>Write\<close> and \<^verbatim>\<open>Exit\<close> set.\<close>

definition same_setup :: "File \<Rightarrow> File \<Rightarrow> bool" where
  "same_setup a a' =
     (world a' = world a \<and> compress a' = compress a \<and> compressLevel a' = compressLevel a
      \<and> linesLimit a' = linesLimit a \<and> bufCh a' = bufCh a \<and> rd a' = rd a)"

text \<open>All the bytes the reader has taken in: the sealed segments, then the open one.\<close>

definition payload :: "File \<Rightarrow> bytes" where
  "payload a = concat (sealed a) @ active a"

text \<open>
  The aggregator as \<^verbatim>\<open>New\<close> leaves it and as long as the reader goroutine has not run:
  no file, no stream, nothing handed off.
\<close>

definition pristine :: "File \<Rightarrow> bool" where
  "pristine a =
     (rd a = Starting \<and> tmp a = None \<and> gz a = None \<and> handed a = [] \<and> lines a = 0
      \<and> size' a = 0)"

text \<open>
  What holds of a running aggregator in an environment without faults, where \<open>ws\<close> are
  the blocks accepted so far: the queue is open, and the bytes taken in by the reader
  followed by the queued ones are the accepted ones.
\<close>

definition running :: "File \<Rightarrow> bytes list \<Rightarrow> bool" where
  "running a ws =
     (io_ok (world a) \<and> level_ok a \<and> \<not> chan_closed (bufCh a)
      \<and> (if rd a = Starting then pristine a \<and> concat (chan_buf (bufCh a)) = concat ws
          else rd a = Ranging \<and> seg_open a
             \<and> payload a @ concat (chan_buf (bufCh a)) = concat ws))"

section \<open>Shutdown of the sink and of the producer\<close>

text \<open>
  \<^verbatim>\<open>sendBytes\<close> offers the block to \<^verbatim>\<open>bytesCh\<close> without waiting; the exported
  \<^verbatim>\<open>SendBytes\<close> does nothing, so nothing of the program ever puts a block on that queue.
\<close>

definition sendBytes :: "AwsS3 \<Rightarrow> bytes \<Rightarrow> (AwsS3 \<times> error option) outcome" where
  "sendBytes p b =
     (case chan_try_send (bytesCh p) b of
        Done (c, True) \<Rightarrow> Done (p\<lparr>bytesCh := c\<rparr>, None)
      | Done (c, False) \<Rightarrow> Done (p, Some ''Bytes channel full'')
      | Blocked \<Rightarrow> Blocked
      | Panic \<Rightarrow> Panic)"

definition SendBytes :: "AwsS3 \<Rightarrow> bytes \<Rightarrow> AwsS3 \<times> error option" where
  "SendBytes p b = (p, None)"

text \<open>
  The second worker of \<^verbatim>\<open>listen\<close> over the blocks left on \<^verbatim>\<open>bytesCh\<close> when it has been
  closed: \<^verbatim>\<open>for b := range p.bytesCh { p.sendBytes(b) }\<close>.
\<close>

fun bytes_worker :: "AwsS3 \<Rightarrow> bytes list \<Rightarrow> AwsS3 outcome" where
  "bytes_worker p [] = Done p"
| "bytes_worker p (b # bs) = outcome_bind (sendBytes p b) (\<lambda>r. bytes_worker (fst r) bs)"

text \<open>
  \<^verbatim>\<open>AwsS3.Exit\<close>: both queues are closed (the two nil tests always pass, since \<^verbatim>\<open>New\<close>
  makes both channels), then \<^verbatim>\<open><-p.done\<close>. The value on \<^verbatim>\<open>p.done\<close> comes from
  \<^verbatim>\<open>listen\<close> once both workers have drained their closed queues; when \<^verbatim>\<open>listen\<close> was
  never started, or its value has been received before, the receive waits for ever.
\<close>

definition AwsS3_Exit :: "AwsS3 \<Rightarrow> AwsS3 outcome" where
  "AwsS3_Exit p =
     outcome_bind (chan_close (fileCh p))
       (\<lambda>fc. outcome_bind (chan_close (bytesCh p))
          (\<lambda>bc. if listening p \<and> \<not> done_taken p
                then outcome_bind
                       (bytes_worker (p\<lparr>fileCh := fc, bytesCh := bc\<lparr>chan_buf := []\<rparr>\<rparr>)
                          (chan_buf bc))
                       (\<lambda>p1. Done ((files_worker (p1\<lparr>fileCh := fc\<lparr>chan_buf := []\<rparr>\<rparr>)
                                      (chan_buf fc))
                                   \<lparr>done_taken := True\<rparr>))
                else Blocked))"

text \<open>
  The producer, package cmd. \<open>started\<close> says that \<^verbatim>\<open>c.cmd\<close> is set (a child process has
  been started, so \<^verbatim>\<open>cmd.Process\<close> is not nil). The \<^verbatim>\<open>listen\<close> goroutine is supervising
  the child, or has returned and offers its one value on \<^verbatim>\<open>c.done\<close>, or that value has
  been received. \<open>child_stops\<close> is the environment's answer to whether the child ends
  when it gets \<^verbatim>\<open>SIGTERM\<close>. The aggregator is \<open>None\<close> when \<^verbatim>\<open>newAggregator\<close> returned
  nil.
\<close>

datatype listen_pc = Supervising | Parked | Gone

record Cmd =
  exiting :: bool
  started :: bool
  listener :: listen_pc
  child_stops :: bool
  aggregator :: "File option"

text \<open>
  \<^verbatim>\<open>Cmd.Exit\<close>: set the flag; if a child was started, signal it and receive from
  \<^verbatim>\<open>c.done\<close> (a supervising \<^verbatim>\<open>listen\<close> returns, and so sends, once the child has ended);
  then \<^verbatim>\<open>c.aggregator.Exit()\<close>, which panics on a nil interface.
\<close>

definition Cmd_Exit :: "Cmd \<Rightarrow> Cmd outcome" where
  "Cmd_Exit c =
     (let c1 = c\<lparr>exiting := True\<rparr> in
      outcome_bind
        (if started c1 then
           (case listener c1 of
              Supervising \<Rightarrow> if child_stops c1 then Done (c1\<lparr>listener := Gone\<rparr>) else Blocked
            | Parked \<Rightarrow> Done (c1\<lparr>listener := Gone\<rparr>)
            | Gone \<Rightarrow> Blocked)
         else Done c1)
        (\<lambda>c2. case aggregator c2 of
                None \<Rightarrow> Panic
              | Some a \<Rightarrow> outcome_map (\<lambda>a'. c2\<lparr>aggregator := Some a'\<rparr>) (Exit a)))"

text \<open>Whether a call returned.\<close>

fun returned :: "'a outcome \<Rightarrow> bool" where
  "returned (Done x) = True"
| "returned Blocked = False"
| "returned Panic = False"

section \<open>Concrete inputs\<close>

text \<open>Remote stores: one that always times out, one that always refuses access, and one
  that accepts the third request.\<close>

definition always_timeout :: "nat \<Rightarrow> send_result" where
  "always_timeout n = AwsErr ''RequestTimeout'' ''timed out''"

definition always_denied :: "nat \<Rightarrow> send_result" where
  "always_denied n = AwsErr ''AccessDenied'' ''Access Denied''"

definition third_time_lucky :: "nat \<Rightarrow> send_result" where
  "third_time_lucky n = (if n < 2 then OtherErr ''connection reset'' else SendOk)"

text \<open>A remote store that times out on the first ten requests and accepts every later one.\<close>

definition ten_timeouts :: "nat \<Rightarrow> send_result" where
  "ten_timeouts n = (if n < 10 then AwsErr ''RequestTimeout'' ''timed out'' else SendOk)"

text \<open>A sink whose file queue holds as many files as it has room for.\<close>

definition full_sink :: AwsS3 where
  "full_sink =
     (AwsS3_New True always_timeout {})
       \<lparr>fileCh := \<lparr>chan_buf = replicate 1000 0, chan_cap = fileChSize, chan_closed = False\<rparr>\<rparr>"

text \<open>An environment without faults, and one where no write stores a byte.\<close>

definition quiet :: env where
  "quiet = \<lparr>temp_fails = [], write_faults = [], sendfile_errs = []\<rparr>"

definition disk_full :: env where
  "disk_full = \<lparr>temp_fails = [], write_faults = [(0, 0), (1, 0), (2, 0)], sendfile_errs = []\<rparr>"

text \<open>The aggregator that \<^verbatim>\<open>New\<close> returns for a limit of three lines, no compression.\<close>

definition lim3 :: File where
  "lim3 =
     \<lparr>bufCh = \<lparr>chan_buf = [], chan_cap = 4096, chan_closed = False\<rparr>, tmp = None, gz = None,
      compress = False, compressLevel = 0, linesLimit = 3, size' = 0, lines = 0,
      rd = Starting, contents = (\<lambda>f. []), temp_calls = 0, write_calls = 0, handed = [],
      world = quiet\<rparr>"

text \<open>The lines \<open>a\<close>, \<open>b\<close>, \<open>c\<close>, \<open>d\<close> of the specification's scenario, one block each.\<close>

definition line_a :: bytes where "line_a = [97, 10]"

definition line_b :: bytes where "line_b = [98, 10]"

definition line_c :: bytes where "line_c = [99, 10]"

definition line_d :: bytes where "line_d = [100, 10]"

text \<open>
  A run of the scenario: the four lines are written one by one while the reader starts
  and takes the first three; the fourth is still queued when \<^verbatim>\<open>Exit\<close> is called.
\<close>

definition scenario :: "event list" where
  "scenario =
     [EvWrite line_a, EvReader, EvWrite line_b, EvReader, EvWrite line_c, EvReader, EvReader,
      EvWrite line_d]"

text \<open>A producer with a live child whose aggregator is the one above.\<close>

definition runner :: Cmd where
  "runner =
     \<lparr>exiting = False, started = True, listener = Supervising, child_stops = True,
      aggregator = Some lim3\<rparr>"

text \<open>A producer whose child could not be started.\<close>

definition idle_runner :: Cmd where
  "idle_runner =
     \<lparr>exiting = False, started = False, listener = Parked, child_stops = True,
      aggregator = Some lim3\<rparr>"

text \<open>The aggregator above with its reader in the loop, and the same on a disk that
  stores nothing.\<close>

definition lim3_ranging :: File where
  "lim3_ranging = (fst (reset lim3))\<lparr>rd := Ranging\<rparr>"

definition lim3_disk_full :: File where
  "lim3_disk_full = lim3\<lparr>world := disk_full\<rparr>"

section \<open>The sink: retries, classification, deletion, enqueueing\<close>

declare sendFile_loop.simps [simp del]

declare sendFile_loop_old.simps [simp del]

lemma retryable_putObject:
  "retryable (send_oracle p (put_calls p)) \<Longrightarrow>
   \<exists>e. putObject p = (p\<lparr>put_calls := put_calls p + 1\<rparr>, Some e) \<and> e \<noteq> errAccessDenied \<and> e \<noteq> errSignatureDoesNotMatch"
  by (auto simp: retryable_def putObject_def split: send_result.splits)

lemma sendFile_loop_all_fail:
  "retry < maxRetry \<Longrightarrow>
   (\<forall>n. put_calls p \<le> n \<and> n < put_calls p + (maxRetry - retry) \<longrightarrow> retryable (send_oracle p n)) \<Longrightarrow>
   sendFile_loop p f retry =
     (p\<lparr>put_calls := put_calls p + (maxRetry - retry), sleeps := sleeps p + (maxRetry - retry - 1)\<rparr>,
      Some ''Maximum errors uploading'')"
proof (induction "maxRetry - retry" arbitrary: p retry)
  case 0
  then show ?case by simp
next
  case (Suc k)
  from Suc.prems(2) Suc.hyps(2) have "retryable (send_oracle p (put_calls p))" by simp
  then obtain e where e: "putObject p = (p\<lparr>put_calls := put_calls p + 1\<rparr>, Some e)"
      "e \<noteq> errAccessDenied" "e \<noteq> errSignatureDoesNotMatch"
    using retryable_putObject by blast
  show ?case
  proof (cases "retry + 1 \<ge> maxRetry")
    case True
    with Suc.prems(1) have "maxRetry - retry = 1" by simp
    with e True show ?thesis
      by (simp add: sendFile_loop.simps [of p f retry])
  next
    case False
    let ?p = "time_Sleep (p\<lparr>put_calls := put_calls p + 1\<rparr>)"
    have k: "k = maxRetry - (retry + 1)" using Suc.hyps(2) by simp
    have lt: "retry + 1 < maxRetry" using False by simp
    have all: "\<forall>n. put_calls ?p \<le> n \<and> n < put_calls ?p + (maxRetry - (retry + 1)) \<longrightarrow> retryable (send_oracle ?p n)"
      using Suc.prems(2) False by (auto simp: time_Sleep_def)
    have "sendFile_loop ?p f (retry + 1) =
      (?p\<lparr>put_calls := put_calls ?p + (maxRetry - (retry + 1)), sleeps := sleeps ?p + (maxRetry - (retry + 1) - 1)\<rparr>,
       Some ''Maximum errors uploading'')"
      by (rule Suc.hyps(1) [OF k lt all])
    with e False show ?thesis
      by (simp add: sendFile_loop.simps [of p f retry] time_Sleep_def)
  qed
qed


lemma failing_putObject_old:
  "send_oracle p (put_calls p) \<noteq> SendOk \<Longrightarrow>
   \<exists>e. putObject_old p = (p\<lparr>put_calls := put_calls p + 1\<rparr>, Some e)"
  by (cases "send_oracle p (put_calls p)") (simp_all add: putObject_old_def)

lemma sendFile_loop_old_all_fail:
  "retry < maxRetry \<Longrightarrow>
   (\<forall>n. put_calls p \<le> n \<and> n < put_calls p + (maxRetry - retry) \<longrightarrow> send_oracle p n \<noteq> SendOk) \<Longrightarrow>
   sendFile_loop_old p f retry =
     (p\<lparr>put_calls := put_calls p + (maxRetry - retry), sleeps := sleeps p + (maxRetry - retry - 1)\<rparr>,
      Some ''Maximum errors uploading'')"
proof (induction "maxRetry - retry" arbitrary: p retry)
  case 0
  then show ?case by simp
next
  case (Suc k)
  from Suc.prems(2) Suc.hyps(2) have "send_oracle p (put_calls p) \<noteq> SendOk" by simp
  then obtain e where e: "putObject_old p = (p\<lparr>put_calls := put_calls p + 1\<rparr>, Some e)"
    using failing_putObject_old by blast
  show ?case
  proof (cases "retry + 1 \<ge> maxRetry")
    case True
    with Suc.prems(1) have "maxRetry - retry = 1" by simp
    with e True show ?thesis
      by (simp add: sendFile_loop_old.simps [of p f retry])
  next
    case False
    let ?p = "time_Sleep (p\<lparr>put_calls := put_calls p + 1\<rparr>)"
    have k: "k = maxRetry - (retry + 1)" using Suc.hyps(2) by simp
    have lt: "retry + 1 < maxRetry" using False by simp
    have all: "\<forall>n. put_calls ?p \<le> n \<and> n < put_calls ?p + (maxRetry - (retry + 1)) \<longrightarrow> send_oracle ?p n \<noteq> SendOk"
      using Suc.prems(2) False by (auto simp: time_Sleep_def)
    have "sendFile_loop_old ?p f (retry + 1) =
      (?p\<lparr>put_calls := put_calls ?p + (maxRetry - (retry + 1)), sleeps := sleeps ?p + (maxRetry - (retry + 1) - 1)\<rparr>,
       Some ''Maximum errors uploading'')"
      by (rule Suc.hyps(1) [OF k lt all])
    with e False show ?thesis
      by (simp add: sendFile_loop_old.simps [of p f retry] time_Sleep_def)
  qed
qed

lemma retryable_not_ok: "retryable r \<Longrightarrow> r \<noteq> SendOk"
  by (auto simp: retryable_def)

text \<open>
  Claim C3. If every put request made for a file fails with an error that the \<^verbatim>\<open>switch\<close>
  of \<^verbatim>\<open>sendFile\<close> does not return on, then \<^verbatim>\<open>sendFile\<close> makes exactly \<open>maxRetry\<close>
  requests (with \<open>maxRetry - 1\<close> pauses between them), gives up with the error
  "Maximum errors uploading" and leaves the local files as they were. The upload worker
  drops that error and goes on: on a queue holding only this file it ends in the state
  \<^verbatim>\<open>sendFile\<close> left, and on a queue with a next file \<open>g\<close> it calls \<^verbatim>\<open>sendFile\<close> on
  \<open>g\<close> from that state and then works on the rest of the queue. The older revision of
  the package behaves the same.
\<close>

theorem sendFile_retry_bound:
  assumes "list_all (\<lambda>n. retryable (send_oracle p n)) [put_calls p ..< put_calls p + maxRetry]"
  shows "sendFile p f =
           (p\<lparr>put_calls := put_calls p + maxRetry, sleeps := sleeps p + (maxRetry - 1)\<rparr>,
            Some ''Maximum errors uploading'')
       \<and> local_files (fst (sendFile p f)) = local_files p
       \<and> files_worker p [f] =
           p\<lparr>put_calls := put_calls p + maxRetry, sleeps := sleeps p + (maxRetry - 1)\<rparr>
       \<and> files_worker p (f # g # rest) =
           files_worker
             (fst (sendFile
                     (p\<lparr>put_calls := put_calls p + maxRetry, sleeps := sleeps p + (maxRetry - 1)\<rparr>)
                     g))
             rest
       \<and> files_worker p (f # rest) =
           files_worker (p\<lparr>put_calls := put_calls p + maxRetry, sleeps := sleeps p + (maxRetry - 1)\<rparr>) rest
       \<and> sendFile_old p f =
           (p\<lparr>put_calls := put_calls p + maxRetry, sleeps := sleeps p + (maxRetry - 1)\<rparr>,
            Some ''Maximum errors uploading'')
       \<and> files_worker_old p [f] =
           p\<lparr>put_calls := put_calls p + maxRetry, sleeps := sleeps p + (maxRetry - 1)\<rparr>
       \<and> files_worker_old p (f # g # rest) =
           files_worker_old
             (fst (sendFile_old
                     (p\<lparr>put_calls := put_calls p + maxRetry, sleeps := sleeps p + (maxRetry - 1)\<rparr>)
                     g))
             rest
       \<and> files_worker_old p (f # rest) =
           files_worker_old (p\<lparr>put_calls := put_calls p + maxRetry, sleeps := sleeps p + (maxRetry - 1)\<rparr>) rest"
proof -
  have pos: "0 < maxRetry" by (simp add: maxRetry_def)
  have all: "\<forall>n. put_calls p \<le> n \<and> n < put_calls p + (maxRetry - 0) \<longrightarrow> retryable (send_oracle p n)"
    using assms by (simp add: list_all_iff)
  have new: "sendFile p f =
           (p\<lparr>put_calls := put_calls p + maxRetry, sleeps := sleeps p + (maxRetry - 1)\<rparr>,
            Some ''Maximum errors uploading'')"
    unfolding sendFile_def using sendFile_loop_all_fail [OF pos all, of f] by simp
  have old: "sendFile_old p f =
           (p\<lparr>put_calls := put_calls p + maxRetry, sleeps := sleeps p + (maxRetry - 1)\<rparr>,
            Some ''Maximum errors uploading'')"
    unfolding sendFile_old_def using sendFile_loop_old_all_fail [OF pos, of p f] all retryable_not_ok
    by simp
  show ?thesis using new old by simp
qed

theorem sendFile_retry_bound_witness:
  "list_all (\<lambda>n. retryable (send_oracle (AwsS3_New True always_timeout {7, 8}) n))
     [put_calls (AwsS3_New True always_timeout {7, 8}) ..<
      put_calls (AwsS3_New True always_timeout {7, 8}) + maxRetry]
   \<and> snd (sendFile (AwsS3_New True always_timeout {7, 8}) 7) = Some ''Maximum errors uploading''
   \<and> put_calls (fst (sendFile (AwsS3_New True always_timeout {7, 8}) 7)) = 10
   \<and> local_files (fst (sendFile (AwsS3_New True always_timeout {7, 8}) 7)) = {7, 8}
   \<and> files_worker (AwsS3_New True always_timeout {7, 8}) [7] =
       (AwsS3_New True always_timeout {7, 8})\<lparr>put_calls := 10, sleeps := 9\<rparr>
   \<and> list_all (\<lambda>n. retryable (send_oracle (AwsS3_New True ten_timeouts {7, 8}) n))
       [put_calls (AwsS3_New True ten_timeouts {7, 8}) ..<
        put_calls (AwsS3_New True ten_timeouts {7, 8}) + maxRetry]
   \<and> files_worker (AwsS3_New True ten_timeouts {7, 8}) [7, 8] =
       (AwsS3_New True ten_timeouts {7, 8})\<lparr>put_calls := 11, sleeps := 9, local_files := {7}\<rparr>
   \<and> files_worker_old (AwsS3_New True ten_timeouts {7, 8}) [7, 8] =
       (AwsS3_New True ten_timeouts {7, 8})\<lparr>put_calls := 11, sleeps := 9, local_files := {7}\<rparr>"
proof -
  have h: "list_all (\<lambda>n. retryable (send_oracle (AwsS3_New True always_timeout {7, 8}) n))
     [put_calls (AwsS3_New True always_timeout {7, 8}) ..<
      put_calls (AwsS3_New True always_timeout {7, 8}) + maxRetry]"
    by (simp add: AwsS3_New_def always_timeout_def retryable_def errAccessDenied_def
        errSignatureDoesNotMatch_def list_all_iff)
  have k: "list_all (\<lambda>n. retryable (send_oracle (AwsS3_New True ten_timeouts {7, 8}) n))
       [put_calls (AwsS3_New True ten_timeouts {7, 8}) ..<
        put_calls (AwsS3_New True ten_timeouts {7, 8}) + maxRetry]"
    by (simp add: AwsS3_New_def ten_timeouts_def retryable_def errAccessDenied_def
        errSignatureDoesNotMatch_def list_all_iff maxRetry_def)
  have one: "snd (sendFile (AwsS3_New True always_timeout {7, 8}) 7) = Some ''Maximum errors uploading''
      \<and> put_calls (fst (sendFile (AwsS3_New True always_timeout {7, 8}) 7)) = 10
      \<and> local_files (fst (sendFile (AwsS3_New True always_timeout {7, 8}) 7)) = {7, 8}
      \<and> files_worker (AwsS3_New True always_timeout {7, 8}) [7] =
          (AwsS3_New True always_timeout {7, 8})\<lparr>put_calls := 10, sleeps := 9\<rparr>"
    using sendFile_retry_bound [OF h, of 7 7 "[]"]
    by (simp add: AwsS3_New_def maxRetry_def)
  let ?q = "(AwsS3_New True ten_timeouts {7, 8})\<lparr>put_calls := 10, sleeps := 9\<rparr>"
  have next_new: "sendFile ?q 8 =
      ((AwsS3_New True ten_timeouts {7, 8})\<lparr>put_calls := 11, sleeps := 9, local_files := {7}\<rparr>, None)"
    by (simp add: sendFile_def sendFile_loop.simps putObject_def os_Remove_def
        AwsS3_New_def ten_timeouts_def insert_Diff_if)
  have next_old: "sendFile_old ?q 8 =
      ((AwsS3_New True ten_timeouts {7, 8})\<lparr>put_calls := 11, sleeps := 9, local_files := {7}\<rparr>, None)"
    by (simp add: sendFile_old_def sendFile_loop_old.simps putObject_old_def os_Remove_def
        AwsS3_New_def ten_timeouts_def insert_Diff_if)
  have q: "(AwsS3_New True ten_timeouts {7, 8})
             \<lparr>put_calls := put_calls (AwsS3_New True ten_timeouts {7, 8}) + maxRetry,
              sleeps := sleeps (AwsS3_New True ten_timeouts {7, 8}) + (maxRetry - 1)\<rparr> = ?q"
    by (simp add: AwsS3_New_def maxRetry_def)
  have two: "files_worker (AwsS3_New True ten_timeouts {7, 8}) [7, 8] =
       (AwsS3_New True ten_timeouts {7, 8})\<lparr>put_calls := 11, sleeps := 9, local_files := {7}\<rparr>
     \<and> files_worker_old (AwsS3_New True ten_timeouts {7, 8}) [7, 8] =
       (AwsS3_New True ten_timeouts {7, 8})\<lparr>put_calls := 11, sleeps := 9, local_files := {7}\<rparr>"
    using sendFile_retry_bound [OF k, of 7 8 "[]"] next_new next_old unfolding q by simp
  from h k one two show ?thesis by blast
qed

text \<open>
  Claim C4. If the first put request for a file fails with the error text
  \<open>AccessDenied\<close> or \<open>SignatureDoesNotMatch\<close>, then \<^verbatim>\<open>sendFile\<close> returns that error
  at once: the state differs from the one before only by the one request counted, so
  there was one attempt, no pause, no retry, and the local file is still there.
\<close>

theorem sendFile_fatal_once:
  assumes "fatal (send_oracle p (put_calls p))"
  shows "\<exists>e. sendFile p f = (p\<lparr>put_calls := put_calls p + 1\<rparr>, Some e)
           \<and> (e = errAccessDenied \<or> e = errSignatureDoesNotMatch)"
  using assms unfolding sendFile_def
  by (auto simp: sendFile_loop.simps [of p f 0] putObject_def fatal_def split: send_result.splits)

theorem sendFile_fatal_once_witness:
  "fatal (send_oracle (AwsS3_New True always_denied {7}) (put_calls (AwsS3_New True always_denied {7})))
   \<and> (\<exists>e. sendFile (AwsS3_New True always_denied {7}) 7 =
            ((AwsS3_New True always_denied {7})
               \<lparr>put_calls := put_calls (AwsS3_New True always_denied {7}) + 1\<rparr>, Some e)
          \<and> (e = errAccessDenied \<or> e = errSignatureDoesNotMatch))"
proof -
  have h: "fatal (send_oracle (AwsS3_New True always_denied {7})
                   (put_calls (AwsS3_New True always_denied {7})))"
    by (simp add: AwsS3_New_def always_denied_def fatal_def errAccessDenied_def)
  show ?thesis using h sendFile_fatal_once [OF h, of 7] by simp
qed

text \<open>
  Claim C5. \<^verbatim>\<open>SendFile\<close> never waits. On a sink whose file queue has not been closed, it
  enqueues the file and returns \<^verbatim>\<open>nil\<close> when the queue has a free slot, and returns the
  error "Files channel full", leaving the sink as it was, when the queue is full.
\<close>

theorem SendFile_never_blocks:
  "SendFile p f \<noteq> Blocked
   \<and> (\<not> chan_closed (fileCh p) \<longrightarrow>
        SendFile p f =
          (if length (chan_buf (fileCh p)) < chan_cap (fileCh p)
           then Done (p\<lparr>fileCh := (fileCh p)\<lparr>chan_buf := chan_buf (fileCh p) @ [f]\<rparr>\<rparr>, None)
           else Done (p, Some ''Files channel full'')))"
  by (simp add: SendFile_def chan_try_send_def)

theorem SendFile_never_blocks_witness:
  "\<not> chan_closed (fileCh (AwsS3_New True always_timeout {}))
   \<and> SendFile (AwsS3_New True always_timeout {}) 7 =
       Done ((AwsS3_New True always_timeout {})
               \<lparr>fileCh := \<lparr>chan_buf = [7], chan_cap = 1000, chan_closed = False\<rparr>\<rparr>, None)
   \<and> \<not> chan_closed (fileCh full_sink)
   \<and> SendFile full_sink 7 = Done (full_sink, Some ''Files channel full'')"
  using SendFile_never_blocks [of "AwsS3_New True always_timeout {}" 7]
    SendFile_never_blocks [of full_sink 7]
  by (simp add: AwsS3_New_def full_sink_def make_chan_def fileChSize_def)

lemma putObject_cases:
  "putObject p = (p\<lparr>put_calls := put_calls p + 1\<rparr>,
     (case send_oracle p (put_calls p) of SendOk \<Rightarrow> None | AwsErr code msg \<Rightarrow> Some code
      | OtherErr msg \<Rightarrow> Some msg))"
  by (simp add: putObject_def split: send_result.splits)

lemma putObject_None: "snd (putObject p) = None \<longleftrightarrow> send_oracle p (put_calls p) = SendOk"
  by (simp add: putObject_cases split: send_result.splits)

lemma sendFile_loop_outcome:
  "sendFile_loop p f retry = (p', r) \<Longrightarrow>
     put_calls p < put_calls p' \<and> send_oracle p' = send_oracle p
   \<and> (\<forall>n. put_calls p \<le> n \<and> n + 1 < put_calls p' \<longrightarrow> send_oracle p n \<noteq> SendOk)
   \<and> (r = None \<longleftrightarrow> send_oracle p (put_calls p' - 1) = SendOk)
   \<and> local_files p' = (if r = None then local_files p - {f} else local_files p)
   \<and> fileCh p' = fileCh p"
proof (induction p f retry arbitrary: p' r rule: sendFile_loop.induct)
  case (1 p f retry)
  let ?p1 = "p\<lparr>put_calls := put_calls p + 1\<rparr>"
  obtain err where po: "putObject p = (?p1, err)"
    and err: "err = None \<longleftrightarrow> send_oracle p (put_calls p) = SendOk"
    using putObject_cases [of p] putObject_None [of p] by simp
  show ?case
  proof (cases err)
    case None
    with "1.prems" po err show ?thesis
      by (auto simp: sendFile_loop.simps [of p f retry] os_Remove_def)
  next
    case (Some e)
    with err have nok: "send_oracle p (put_calls p) \<noteq> SendOk" by simp
    show ?thesis
    proof (cases "e = errAccessDenied \<or> e = errSignatureDoesNotMatch \<or> retry + 1 \<ge> maxRetry")
      case True
      with "1.prems" po Some have "p' = ?p1" "r \<noteq> None"
        by (auto simp: sendFile_loop.simps [of p f retry] split: if_splits)
      with nok show ?thesis by auto
    next
      case False
      with "1.prems" po Some have rec: "sendFile_loop (time_Sleep ?p1) f (retry + 1) = (p', r)"
        by (simp add: sendFile_loop.simps [of p f retry])
      have IH: "put_calls (time_Sleep ?p1) < put_calls p' \<and> send_oracle p' = send_oracle (time_Sleep ?p1)
   \<and> (\<forall>n. put_calls (time_Sleep ?p1) \<le> n \<and> n + 1 < put_calls p' \<longrightarrow> send_oracle (time_Sleep ?p1) n \<noteq> SendOk)
   \<and> (r = None \<longleftrightarrow> send_oracle (time_Sleep ?p1) (put_calls p' - 1) = SendOk)
   \<and> local_files p' = (if r = None then local_files (time_Sleep ?p1) - {f} else local_files (time_Sleep ?p1))
   \<and> fileCh p' = fileCh (time_Sleep ?p1)"
      proof -
        from False have f1: "\<not> (e = errAccessDenied \<or> e = errSignatureDoesNotMatch)"
          and f2: "\<not> maxRetry \<le> retry + 1" by simp_all
        show ?thesis by (rule "1.IH" [OF po [symmetric] Some f1 f2 rec])
      qed
      have "\<And>n. put_calls p \<le> n \<Longrightarrow> n + 1 < put_calls p' \<Longrightarrow> send_oracle p n \<noteq> SendOk"
      proof -
        fix n assume n: "put_calls p \<le> n" "n + 1 < put_calls p'"
        show "send_oracle p n \<noteq> SendOk"
        proof (cases "n = put_calls p")
          case True with nok show ?thesis by simp
        next
          case False
          with n have "put_calls (time_Sleep ?p1) \<le> n" by (simp add: time_Sleep_def)
          with IH n show ?thesis by (simp add: time_Sleep_def)
        qed
      qed
      with IH show ?thesis by (simp add: time_Sleep_def)
    qed
  qed
qed

text \<open>
  Claim C6. For a file that is on disk when the upload worker takes it, \<^verbatim>\<open>sendFile\<close>
  (which always returns) has removed it afterwards if and only if one of the put requests
  it made succeeded, which is also exactly when it returns \<^verbatim>\<open>nil\<close>; on every error
  return the file is still on disk. No other local file is touched.
\<close>

theorem sendFile_removes_iff_success:
  assumes "f \<in> local_files p" and "sendFile p f = (p', r)"
  shows "(f \<notin> local_files p' \<longleftrightarrow> (\<exists>n. put_calls p \<le> n \<and> n < put_calls p' \<and> send_oracle p n = SendOk))
       \<and> (r = None \<longleftrightarrow> f \<notin> local_files p')
       \<and> local_files p' - {f} = local_files p - {f}"
proof -
  from assms(2) have o: "put_calls p < put_calls p'"
    "\<forall>n. put_calls p \<le> n \<and> n + 1 < put_calls p' \<longrightarrow> send_oracle p n \<noteq> SendOk"
    "r = None \<longleftrightarrow> send_oracle p (put_calls p' - 1) = SendOk"
    "local_files p' = (if r = None then local_files p - {f} else local_files p)"
    unfolding sendFile_def using sendFile_loop_outcome [of p f 0 p' r] by simp_all
  have a: "r = None \<longleftrightarrow> f \<notin> local_files p'" using o(4) assms(1) by auto
  have b: "r = None \<longleftrightarrow> (\<exists>n. put_calls p \<le> n \<and> n < put_calls p' \<and> send_oracle p n = SendOk)"
  proof
    assume "r = None"
    with o(1,3) show "\<exists>n. put_calls p \<le> n \<and> n < put_calls p' \<and> send_oracle p n = SendOk"
      by (intro exI [of _ "put_calls p' - 1"]) auto
  next
    assume "\<exists>n. put_calls p \<le> n \<and> n < put_calls p' \<and> send_oracle p n = SendOk"
    then obtain n where n: "put_calls p \<le> n" "n < put_calls p'" "send_oracle p n = SendOk" by blast
    with o(2) have "\<not> n + 1 < put_calls p'" by blast
    with n(2) have "n = put_calls p' - 1" by simp
    with n(3) o(3) show "r = None" by simp
  qed
  from a b o(4) show ?thesis by auto
qed

theorem sendFile_removes_iff_success_witness:
  "7 \<in> local_files (AwsS3_New True third_time_lucky {7, 8})
   \<and> sendFile (AwsS3_New True third_time_lucky {7, 8}) 7 =
       ((AwsS3_New True third_time_lucky {7, 8})\<lparr>put_calls := 3, sleeps := 2, local_files := {8}\<rparr>, None)
   \<and> (\<exists>n. 0 \<le> n \<and> n < 3 \<and> third_time_lucky n = SendOk)
   \<and> 7 \<in> local_files (AwsS3_New True always_denied {7, 8})
   \<and> sendFile (AwsS3_New True always_denied {7, 8}) 7 =
       ((AwsS3_New True always_denied {7, 8})\<lparr>put_calls := 1\<rparr>, Some ''AccessDenied'')
   \<and> \<not> (\<exists>n. 0 \<le> n \<and> n < 1 \<and> always_denied n = SendOk)"
proof -
  have h1: "7 \<in> local_files (AwsS3_New True third_time_lucky {7, 8})"
    by (simp add: AwsS3_New_def)
  have h2: "sendFile (AwsS3_New True third_time_lucky {7, 8}) 7 =
       ((AwsS3_New True third_time_lucky {7, 8})\<lparr>put_calls := 3, sleeps := 2, local_files := {8}\<rparr>, None)"
    by (simp add: sendFile_def sendFile_loop.simps putObject_def time_Sleep_def os_Remove_def
        AwsS3_New_def third_time_lucky_def maxRetry_def errAccessDenied_def
        errSignatureDoesNotMatch_def insert_Diff_if)
  have h3: "7 \<in> local_files (AwsS3_New True always_denied {7, 8})"
    by (simp add: AwsS3_New_def)
  have h4: "sendFile (AwsS3_New True always_denied {7, 8}) 7 =
       ((AwsS3_New True always_denied {7, 8})\<lparr>put_calls := 1\<rparr>, Some ''AccessDenied'')"
    by (simp add: sendFile_def sendFile_loop.simps putObject_def
        AwsS3_New_def always_denied_def errAccessDenied_def)
  show ?thesis
    using h1 h2 h3 h4 sendFile_removes_iff_success [OF h1 h2] sendFile_removes_iff_success [OF h3 h4]
    by (simp add: AwsS3_New_def)
qed

section \<open>The aggregator: the reader's loop\<close>

lemma map_contents_upd:
  "f \<notin> set hs \<Longrightarrow> map (c(f := v)) hs = map c hs"
  by (induction hs) auto

lemma append_ok:
  assumes "seg_open a" and "io_ok (world a)"
  shows "\<exists>a1. (if compress a then gz_Write a b else Done (file_Write a (tmp a) b)) = Done a1
      \<and> seg_open a1 \<and> active a1 = active a @ b \<and> sealed a1 = sealed a \<and> handed a1 = handed a
      \<and> tmp a1 = tmp a \<and> temp_calls a1 = temp_calls a \<and> lines a1 = lines a \<and> size' a1 = size' a
      \<and> same_setup a a1"
proof (cases "compress a")
  case True
  with assms show ?thesis
    by (auto simp: seg_open_def gz_Write_def active_def sealed_def same_setup_def
        split: option.splits)
next
  case False
  with assms show ?thesis
    by (auto simp: seg_open_def file_Write_def active_def sealed_def same_setup_def io_ok_def
        map_contents_upd Let_def split: option.splits)
qed

lemma flush_ok:
  assumes "seg_open a" and "io_ok (world a)" and "tmp a = Some f"
  shows "handed (fst (flush a)) = handed a @ [f]"
    and "sealed (fst (flush a)) = sealed a @ [active a]"
    and "tmp (fst (flush a)) = Some f"
    and "temp_calls (fst (flush a)) = temp_calls a"
    and "list_all (\<lambda>h. h < temp_calls (fst (flush a))) (handed (fst (flush a)))"
    and "distinct (handed (fst (flush a)))"
    and "\<not> compress a \<longrightarrow> gz (fst (flush a)) = None"
    and "same_setup a (fst (flush a))"
proof -
  have "handed (fst (flush a)) = handed a @ [f]
      \<and> sealed (fst (flush a)) = sealed a @ [active a]
      \<and> tmp (fst (flush a)) = Some f \<and> temp_calls (fst (flush a)) = temp_calls a
      \<and> list_all (\<lambda>h. h < temp_calls a) (handed a @ [f])
      \<and> distinct (handed a @ [f])
      \<and> (\<not> compress a \<longrightarrow> gz (fst (flush a)) = None)
      \<and> same_setup a (fst (flush a))"
  proof (cases "compress a")
    case True
    with assms show ?thesis
      by (auto simp: seg_open_def flush_def gz_Close_def file_Write_def output_SendFile_def
          active_def sealed_def same_setup_def io_ok_def map_contents_upd Let_def
          split: option.splits)
  next
    case False
    with assms show ?thesis
      by (auto simp: seg_open_def flush_def output_SendFile_def
          active_def sealed_def same_setup_def Let_def
          split: option.splits)
  qed
  then show "handed (fst (flush a)) = handed a @ [f]"
    and "sealed (fst (flush a)) = sealed a @ [active a]"
    and "tmp (fst (flush a)) = Some f"
    and "temp_calls (fst (flush a)) = temp_calls a"
    and "list_all (\<lambda>h. h < temp_calls (fst (flush a))) (handed (fst (flush a)))"
    and "distinct (handed (fst (flush a)))"
    and "\<not> compress a \<longrightarrow> gz (fst (flush a)) = None"
    and "same_setup a (fst (flush a))"
    by simp_all
qed

lemma reset_ok:
  assumes "io_ok (world a)" and "level_ok a"
    and "list_all (\<lambda>h. h < temp_calls a) (handed a)" and "distinct (handed a)"
    and "\<not> compress a \<longrightarrow> gz a = None"
  shows "seg_open (fst (reset a)) \<and> tmp (fst (reset a)) = Some (temp_calls a)
      \<and> handed (fst (reset a)) = handed a \<and> sealed (fst (reset a)) = sealed a
      \<and> active (fst (reset a)) = [] \<and> lines (fst (reset a)) = 0 \<and> size' (fst (reset a)) = 0
      \<and> temp_calls (fst (reset a)) = temp_calls a + 1
      \<and> same_setup a (fst (reset a))"
proof -
  have notin: "temp_calls a \<notin> set (handed a)"
    using assms(3) by (auto simp: list_all_iff)
  have mono: "list_all (\<lambda>h. h < Suc (temp_calls a)) (handed a)"
    using assms(3) by (auto simp: list_all_iff)
  show ?thesis
  proof (cases "compress a")
    case True
    with assms notin mono show ?thesis
      by (simp add: reset_def TempFile_def Let_def io_ok_def level_ok_def seg_open_def active_def
          sealed_def same_setup_def map_contents_upd)
  next
    case False
    with assms notin mono show ?thesis
      by (simp add: reset_def TempFile_def Let_def io_ok_def level_ok_def seg_open_def active_def
          sealed_def same_setup_def map_contents_upd)
  qed
qed

lemma same_setup_trans: "same_setup a b \<Longrightarrow> same_setup b c \<Longrightarrow> same_setup a c"
  by (simp add: same_setup_def)

lemma same_setup_io: "same_setup a b \<Longrightarrow> io_ok (world b) = io_ok (world a)"
  by (simp add: same_setup_def)

lemma same_setup_level: "same_setup a b \<Longrightarrow> level_ok b = level_ok a"
  by (simp add: same_setup_def level_ok_def)

lemma rotate_ok:
  assumes "seg_open a" and "io_ok (world a)" and "level_ok a" and "tmp a = Some f"
  shows "seg_open (fst (reset (fst (flush a))))
      \<and> tmp (fst (reset (fst (flush a)))) = Some (temp_calls a)
      \<and> handed (fst (reset (fst (flush a)))) = handed a @ [f]
      \<and> sealed (fst (reset (fst (flush a)))) = sealed a @ [active a]
      \<and> active (fst (reset (fst (flush a)))) = []
      \<and> lines (fst (reset (fst (flush a)))) = 0 \<and> size' (fst (reset (fst (flush a)))) = 0
      \<and> same_setup a (fst (reset (fst (flush a))))"
proof -
  let ?a1 = "fst (flush a)"
  note fl = flush_ok [OF assms(1,2,4)]
  have ss: "same_setup a ?a1" by (rule fl(8))
  have io: "io_ok (world ?a1)" using ss assms(2) by (simp add: same_setup_io)
  have lv: "level_ok ?a1" using ss assms(3) by (simp add: same_setup_level)
  have la: "list_all (\<lambda>h. h < temp_calls ?a1) (handed ?a1)" by (rule fl(5))
  have di: "distinct (handed ?a1)" by (rule fl(6))
  have gzn: "\<not> compress ?a1 \<longrightarrow> gz ?a1 = None" using fl(7) ss by (simp add: same_setup_def)
  note rs = reset_ok [OF io lv la di gzn]
  show ?thesis using rs fl(1,2,4) same_setup_trans [OF ss] by simp
qed

lemma reader_body_ok:
  assumes "seg_open a" and "io_ok (world a)" and "level_ok a" and "tmp a = Some f"
  shows "\<exists>a'. reader_body a b = Done a' \<and> seg_open a' \<and> same_setup a a'
      \<and> (if linesLimit a \<le> lines a + of_nat (count_newlines b)
          then handed a' = handed a @ [f] \<and> sealed a' = sealed a @ [active a @ b]
             \<and> active a' = [] \<and> lines a' = 0 \<and> size' a' = 0
          else handed a' = handed a \<and> sealed a' = sealed a \<and> active a' = active a @ b
             \<and> lines a' = lines a + of_nat (count_newlines b)
             \<and> size' a' = size' a + of_nat (length b))"
proof -
  obtain a1 where a1: "(if compress a then gz_Write a b else Done (file_Write a (tmp a) b)) = Done a1"
    and p1: "seg_open a1" "active a1 = active a @ b" "sealed a1 = sealed a" "handed a1 = handed a"
      "tmp a1 = tmp a" "lines a1 = lines a" "size' a1 = size' a" "same_setup a a1"
    using append_ok [OF assms(1,2), of b] by blast
  define a2 where "a2 = a1\<lparr>lines := lines a1 + of_nat (count_newlines b),
                           size' := size' a1 + of_nat (length b)\<rparr>"
  have p2: "seg_open a2" "active a2 = active a @ b" "sealed a2 = sealed a" "handed a2 = handed a"
      "tmp a2 = Some f" "same_setup a a2"
      "lines a2 = lines a + of_nat (count_newlines b)" "size' a2 = size' a + of_nat (length b)"
    using p1 assms(4) by (simp_all add: a2_def seg_open_def active_def sealed_def same_setup_def)
  have io2: "io_ok (world a2)" using p2(6) assms(2) by (simp add: same_setup_io)
  have lv2: "level_ok a2" using p2(6) assms(3) by (simp add: same_setup_level)
  have body: "reader_body a b =
      Done (if lines a2 \<ge> linesLimit a2 then fst (reset (fst (flush a2))) else a2)"
    unfolding reader_body_def a1 by (simp add: a2_def Let_def)
  have ll: "linesLimit a2 = linesLimit a" using p2(6) by (simp add: same_setup_def)
  show ?thesis
  proof (cases "linesLimit a \<le> lines a + of_nat (count_newlines b)")
    case True
    note ro = rotate_ok [OF p2(1) io2 lv2 p2(5)]
    from True body ll p2 ro same_setup_trans [OF p2(6)] show ?thesis by simp
  next
    case False
    from False body ll p2 show ?thesis by simp
  qed
qed

lemma count_newlines_append: "count_newlines (x @ y) = count_newlines x + count_newlines y"
  by (simp add: count_newlines_def)

lemma count_newlines_le: "count_newlines b \<le> length b"
  by (simp add: count_newlines_def)

lemma limit_test:
  assumes "n < 2 ^ 64"
  shows "(L \<le> (of_nat n :: 64 word)) \<longleftrightarrow> unat L \<le> n"
proof -
  have "unat (of_nat n :: 64 word) = n" using assms by (simp add: unat_of_nat)
  then show ?thesis by (simp add: word_le_nat_alt)
qed

lemma range_loop_refines:
  assumes "seg_open a" and "io_ok (world a)" and "level_ok a"
    and "lines a = of_nat (count_newlines (active a))"
    and "size' a = of_nat (length (active a))"
    and "count_newlines (active a) < unat (linesLimit a) \<or> active a = []"
    and "unat (linesLimit a) \<le> 2 ^ 63"
    and "list_all (\<lambda>b. length b < 2 ^ 63) bs"
  shows "\<exists>a'. range_loop a bs = Done a' \<and> seg_open a' \<and> same_setup a a'
      \<and> sealed a' = sealed a @ fst (spec_writer (unat (linesLimit a)) (active a) bs)
      \<and> active a' = snd (spec_writer (unat (linesLimit a)) (active a) bs)
      \<and> lines a' = of_nat (count_newlines (active a'))
      \<and> size' a' = of_nat (length (active a'))
      \<and> (count_newlines (active a') < unat (linesLimit a) \<or> active a' = [])"
  using assms
proof (induction bs arbitrary: a)
  case Nil
  then show ?case by (simp add: same_setup_def)
next
  case (Cons b bs)
  obtain f where f: "tmp a = Some f" using Cons.prems(1) by (auto simp: seg_open_def split: option.splits)
  let ?L = "unat (linesLimit a)"
  let ?seg = "active a @ b"
  have small: "count_newlines ?seg < 2 ^ 64"
  proof -
    have "count_newlines (active a) < 2 ^ 63" using Cons.prems(6,7) by (auto simp: count_newlines_def)
    moreover have "count_newlines b < 2 ^ 63" using Cons.prems(8) count_newlines_le [of b] by simp
    ultimately show ?thesis by (simp add: count_newlines_append)
  qed
  have sum: "lines a + of_nat (count_newlines b) = of_nat (count_newlines ?seg)"
    using Cons.prems(4) by (simp add: count_newlines_append)
  have test: "(linesLimit a \<le> lines a + of_nat (count_newlines b)) \<longleftrightarrow> ?L \<le> count_newlines ?seg"
    unfolding sum by (rule limit_test [OF small])
  obtain a1 where a1: "reader_body a b = Done a1" "seg_open a1" "same_setup a a1"
    and rot: "if linesLimit a \<le> lines a + of_nat (count_newlines b)
          then handed a1 = handed a @ [f] \<and> sealed a1 = sealed a @ [active a @ b]
             \<and> active a1 = [] \<and> lines a1 = 0 \<and> size' a1 = 0
          else handed a1 = handed a \<and> sealed a1 = sealed a \<and> active a1 = active a @ b
             \<and> lines a1 = lines a + of_nat (count_newlines b)
             \<and> size' a1 = size' a + of_nat (length b)"
    using reader_body_ok [OF Cons.prems(1,2,3) f, of b] by blast
  have io1: "io_ok (world a1)" using a1(3) Cons.prems(2) by (simp add: same_setup_io)
  have lv1: "level_ok a1" using a1(3) Cons.prems(3) by (simp add: same_setup_level)
  have L1: "linesLimit a1 = linesLimit a" using a1(3) by (simp add: same_setup_def)
  have lim1: "unat (linesLimit a1) \<le> 2 ^ 63" using Cons.prems(7) L1 by simp
  have bs: "list_all (\<lambda>b. length b < 2 ^ 63) bs" using Cons.prems(8) by simp
  show ?case
  proof (cases "?L \<le> count_newlines ?seg")
    case True
    with rot test have r: "sealed a1 = sealed a @ [?seg]" "active a1 = []" "lines a1 = 0" "size' a1 = 0"
      by simp_all
    have "\<exists>a'. range_loop a1 bs = Done a' \<and> seg_open a' \<and> same_setup a1 a'
      \<and> sealed a' = sealed a1 @ fst (spec_writer (unat (linesLimit a1)) (active a1) bs)
      \<and> active a' = snd (spec_writer (unat (linesLimit a1)) (active a1) bs)
      \<and> lines a' = of_nat (count_newlines (active a'))
      \<and> size' a' = of_nat (length (active a'))
      \<and> (count_newlines (active a') < unat (linesLimit a1) \<or> active a' = [])"
      by (rule Cons.IH [OF a1(2) io1 lv1 _ _ _ lim1 bs]) (simp_all add: r count_newlines_def)
    then obtain a' where a': "range_loop a1 bs = Done a'" "seg_open a'" "same_setup a1 a'"
      "sealed a' = sealed a1 @ fst (spec_writer (unat (linesLimit a1)) (active a1) bs)"
      "active a' = snd (spec_writer (unat (linesLimit a1)) (active a1) bs)"
      "lines a' = of_nat (count_newlines (active a'))"
      "size' a' = of_nat (length (active a'))"
      "count_newlines (active a') < unat (linesLimit a1) \<or> active a' = []"
      by blast
    show ?thesis
      using a1(1) a' True r L1 same_setup_trans [OF a1(3) a'(3)] by simp
  next
    case False
    with rot test have r: "sealed a1 = sealed a" "active a1 = ?seg"
      "lines a1 = lines a + of_nat (count_newlines b)" "size' a1 = size' a + of_nat (length b)"
      by simp_all
    have l1: "lines a1 = of_nat (count_newlines (active a1))" using r sum by simp
    have s1: "size' a1 = of_nat (length (active a1))" using r Cons.prems(5) by simp
    have c1: "count_newlines (active a1) < unat (linesLimit a1) \<or> active a1 = []"
      using False r L1 by simp
    have "\<exists>a'. range_loop a1 bs = Done a' \<and> seg_open a' \<and> same_setup a1 a'
      \<and> sealed a' = sealed a1 @ fst (spec_writer (unat (linesLimit a1)) (active a1) bs)
      \<and> active a' = snd (spec_writer (unat (linesLimit a1)) (active a1) bs)
      \<and> lines a' = of_nat (count_newlines (active a'))
      \<and> size' a' = of_nat (length (active a'))
      \<and> (count_newlines (active a') < unat (linesLimit a1) \<or> active a' = [])"
      by (rule Cons.IH [OF a1(2) io1 lv1 l1 s1 c1 lim1 bs])
    then obtain a' where a': "range_loop a1 bs = Done a'" "seg_open a'" "same_setup a1 a'"
      "sealed a' = sealed a1 @ fst (spec_writer (unat (linesLimit a1)) (active a1) bs)"
      "active a' = snd (spec_writer (unat (linesLimit a1)) (active a1) bs)"
      "lines a' = of_nat (count_newlines (active a'))"
      "size' a' = of_nat (length (active a'))"
      "count_newlines (active a') < unat (linesLimit a1) \<or> active a' = []"
      by blast
    show ?thesis
      using a1(1) a' False r L1 same_setup_trans [OF a1(3) a'(3)] by simp
  qed
qed

lemma apply_cfg_keeps:
  "apply_cfg a kv = Done a' \<Longrightarrow>
     bufCh a' = bufCh a \<and> world a' = world a \<and> pristine a' = pristine a"
  by (auto simp: apply_cfg_def Let_def pristine_def split: if_splits cfg_value.splits)

lemma load_cfg_keeps:
  "load_cfg a cfg = Done a' \<Longrightarrow>
     bufCh a' = bufCh a \<and> world a' = world a \<and> pristine a' = pristine a"
proof (induction cfg arbitrary: a)
  case Nil
  then show ?case by simp
next
  case (Cons kv cfg)
  then obtain a1 where a1: "apply_cfg a kv = Done a1" "load_cfg a1 cfg = Done a'"
    by (cases "apply_cfg a kv") simp_all
  from apply_cfg_keeps [OF a1(1)] Cons.IH [OF a1(2)] show ?case by simp
qed

lemma New_pristine:
  assumes "New cfg e = Done a0"
  shows "pristine a0" and "world a0 = e" and "bufCh a0 = make_chan defaultBufSize"
proof -
  let ?i = "\<lparr>bufCh = make_chan defaultBufSize, tmp = None, gz = None, compress = False,
           compressLevel = 0, linesLimit = 0, size' = 0, lines = 0, rd = Starting,
           contents = (\<lambda>f. []), temp_calls = 0, write_calls = 0, handed = [], world = e\<rparr>"
  from assms obtain a where a: "load_cfg ?i cfg = Done a"
    and a0: "a0 = (if linesLimit a = 0 then a\<lparr>linesLimit := defaultLimitLines\<rparr> else a)"
    unfolding New_def by (cases "load_cfg ?i cfg") auto
  have "pristine ?i" by (simp add: pristine_def)
  with load_cfg_keeps [OF a] have k: "pristine a" "world a = e" "bufCh a = make_chan defaultBufSize"
    by simp_all
  show "pristine a0" using k(1) a0 by (simp add: pristine_def)
  show "world a0 = e" using k(2) a0 by simp
  show "bufCh a0 = make_chan defaultBufSize" using k(3) a0 by simp
qed

lemma first_reset:
  assumes "pristine a" and "io_ok (world a)" and "level_ok a"
  shows "seg_open (fst (reset a))" and "sealed (fst (reset a)) = []"
    and "active (fst (reset a)) = []" and "lines (fst (reset a)) = 0"
    and "size' (fst (reset a)) = 0" and "same_setup a (fst (reset a))"
proof -
  have h: "list_all (\<lambda>h. h < temp_calls a) (handed a)" "distinct (handed a)"
    "\<not> compress a \<longrightarrow> gz a = None" "sealed a = []"
    using assms(1) by (simp_all add: pristine_def sealed_def)
  note r = reset_ok [OF assms(2,3) h(1,2,3)]
  show "seg_open (fst (reset a))" and "sealed (fst (reset a)) = []"
    and "active (fst (reset a)) = []" and "lines (fst (reset a)) = 0"
    and "size' (fst (reset a)) = 0" and "same_setup a (fst (reset a))"
    using r h(4) by simp_all
qed

lemma crossing_test:
  assumes "lines a = of_nat (count_newlines (active a))"
    and "count_newlines (active a) < unat (linesLimit a) \<or> active a = []"
    and "unat (linesLimit a) \<le> 2 ^ 63" and "length b < 2 ^ 63"
  shows "(linesLimit a \<le> lines a + of_nat (count_newlines b))
           \<longleftrightarrow> unat (linesLimit a) \<le> count_newlines (active a @ b)"
proof -
  have "count_newlines (active a) < 2 ^ 63" using assms(2,3) by (auto simp: count_newlines_def)
  moreover have "count_newlines b < 2 ^ 63" using assms(4) count_newlines_le [of b] by simp
  ultimately have small: "count_newlines (active a @ b) < 2 ^ 64"
    by (simp add: count_newlines_append)
  have sum: "lines a + of_nat (count_newlines b) = of_nat (count_newlines (active a @ b))"
    using assms(1) by (simp add: count_newlines_append)
  show ?thesis unfolding sum by (rule limit_test [OF small])
qed

text \<open>
  Claim C2. Let the writer task of an aggregator made by \<^verbatim>\<open>New\<close> run from its start over
  the blocks \<open>bs\<close> and then over one more block \<open>b\<close>, in an environment without faults,
  with an accepted compression level, a limit that came from a non-negative int64 and
  blocks of a length a Go slice can have. Then the segments handed off and the open
  segment after \<open>bs\<close> are the ones of \<open>spec_writer\<close>, which cuts the stream wherever the
  newline count of the open segment reaches the limit; so every crossing has one
  handed-off file and every handed-off file one crossing. For the next block: if with it
  the newline count of the open segment reaches the limit, exactly one file is handed
  off (the segment's, holding the segment with the block), and right after it the reader
  has another file as its open segment, empty, with both counters at zero; otherwise
  nothing is handed off and the counters count the open segment.
\<close>

theorem rotation_per_crossing:
  assumes "New cfg e = Done a0" and "io_ok e" and "level_ok a0"
    and "unat (linesLimit a0) \<le> 2 ^ 63"
    and "list_all (\<lambda>b. length b < 2 ^ 63) (bs @ [b])"
  shows "\<exists>a a' f. range_loop (fst (reset a0)) bs = Done a \<and> reader_body a b = Done a'
      \<and> sealed a = fst (spec_writer (unat (linesLimit a0)) [] bs)
      \<and> active a = snd (spec_writer (unat (linesLimit a0)) [] bs)
      \<and> tmp a = Some f \<and> seg_open a'
      \<and> (if unat (linesLimit a0) \<le> count_newlines (active a @ b)
          then handed a' = handed a @ [f] \<and> sealed a' = sealed a @ [active a @ b]
             \<and> tmp a' \<noteq> tmp a \<and> active a' = [] \<and> lines a' = 0 \<and> size' a' = 0
          else handed a' = handed a \<and> sealed a' = sealed a \<and> active a' = active a @ b
             \<and> lines a' = of_nat (count_newlines (active a @ b))
             \<and> size' a' = of_nat (length (active a @ b)))"
proof -
  let ?r = "fst (reset a0)"
  let ?L = "unat (linesLimit a0)"
  have pr: "pristine a0" and w: "world a0 = e" using New_pristine [OF assms(1)] by simp_all
  have io: "io_ok (world a0)" using w assms(2) by simp
  note fr = first_reset [OF pr io assms(3)]
  have ior: "io_ok (world ?r)" using fr(6) io by (simp add: same_setup_io)
  have lvr: "level_ok ?r" using fr(6) assms(3) by (simp add: same_setup_level)
  have Lr: "linesLimit ?r = linesLimit a0" using fr(6) by (simp add: same_setup_def)
  have bs: "list_all (\<lambda>b. length b < 2 ^ 63) bs" and b: "length b < 2 ^ 63"
    using assms(5) by simp_all
  have "\<exists>a. range_loop ?r bs = Done a \<and> seg_open a \<and> same_setup ?r a
      \<and> sealed a = sealed ?r @ fst (spec_writer (unat (linesLimit ?r)) (active ?r) bs)
      \<and> active a = snd (spec_writer (unat (linesLimit ?r)) (active ?r) bs)
      \<and> lines a = of_nat (count_newlines (active a))
      \<and> size' a = of_nat (length (active a))
      \<and> (count_newlines (active a) < unat (linesLimit ?r) \<or> active a = [])"
  proof (rule range_loop_refines [OF fr(1) ior lvr _ _ _ _ bs])
    show "lines ?r = of_nat (count_newlines (active ?r))" by (simp add: fr count_newlines_def)
    show "size' ?r = of_nat (length (active ?r))" by (simp add: fr)
    show "count_newlines (active ?r) < unat (linesLimit ?r) \<or> active ?r = []" by (simp add: fr)
    show "unat (linesLimit ?r) \<le> 2 ^ 63" unfolding Lr by (rule assms(4))
  qed
  then obtain a where a: "range_loop ?r bs = Done a" "seg_open a" "same_setup ?r a"
      "sealed a = fst (spec_writer ?L [] bs)" "active a = snd (spec_writer ?L [] bs)"
      "lines a = of_nat (count_newlines (active a))" "size' a = of_nat (length (active a))"
      "count_newlines (active a) < unat (linesLimit ?r) \<or> active a = []"
    using fr(2,3) Lr by auto
  have La: "linesLimit a = linesLimit a0" using a(3) Lr by (simp add: same_setup_def)
  have ioa: "io_ok (world a)" using a(3) ior by (simp add: same_setup_io)
  have lva: "level_ok a" using a(3) lvr by (simp add: same_setup_level)
  obtain f where f: "tmp a = Some f"
    using a(2) by (auto simp: seg_open_def split: option.splits)
  have test: "(linesLimit a \<le> lines a + of_nat (count_newlines b))
           \<longleftrightarrow> ?L \<le> count_newlines (active a @ b)"
    using crossing_test [OF a(6) _ _ b, of ] a(8) La Lr assms(4) by simp
  obtain a' where a': "reader_body a b = Done a'" "seg_open a'"
    and rot: "if linesLimit a \<le> lines a + of_nat (count_newlines b)
          then handed a' = handed a @ [f] \<and> sealed a' = sealed a @ [active a @ b]
             \<and> active a' = [] \<and> lines a' = 0 \<and> size' a' = 0
          else handed a' = handed a \<and> sealed a' = sealed a \<and> active a' = active a @ b
             \<and> lines a' = lines a + of_nat (count_newlines b)
             \<and> size' a' = size' a + of_nat (length b)"
    using reader_body_ok [OF a(2) ioa lva f, of b] by blast
  have fresh: "handed a' = handed a @ [f] \<Longrightarrow> tmp a' \<noteq> tmp a"
    using a'(2) f by (auto simp: seg_open_def split: option.splits)
  have tail: "if ?L \<le> count_newlines (active a @ b)
          then handed a' = handed a @ [f] \<and> sealed a' = sealed a @ [active a @ b]
             \<and> tmp a' \<noteq> tmp a \<and> active a' = [] \<and> lines a' = 0 \<and> size' a' = 0
          else handed a' = handed a \<and> sealed a' = sealed a \<and> active a' = active a @ b
             \<and> lines a' = of_nat (count_newlines (active a @ b))
             \<and> size' a' = of_nat (length (active a @ b))"
  proof (cases "?L \<le> count_newlines (active a @ b)")
    case True
    with rot test fresh show ?thesis by simp
  next
    case False
    with rot test a(6,7) show ?thesis by (simp add: count_newlines_append)
  qed
  from a(1,4,5) a' f tail show ?thesis by blast
qed

lemma New_lim3: "New [(''lineslimit'', VInt 3)] quiet = Done lim3"
  by (simp add: New_def apply_cfg_def to_lower_def lim3_def make_chan_def defaultBufSize_def Let_def)

theorem rotation_per_crossing_witness:
  "New [(''lineslimit'', VInt 3)] quiet = Done lim3 \<and> io_ok quiet \<and> level_ok lim3
   \<and> unat (linesLimit lim3) \<le> 2 ^ 63
   \<and> list_all (\<lambda>b. length b < 2 ^ 63) ([line_a, line_b] @ [line_c])
   \<and> unat (linesLimit lim3) \<le> count_newlines (snd (spec_writer (unat (linesLimit lim3)) [] [line_a, line_b]) @ line_c)
   \<and> (\<exists>a a' f. range_loop (fst (reset lim3)) [line_a, line_b] = Done a \<and> reader_body a line_c = Done a'
        \<and> sealed a = [] \<and> active a = line_a @ line_b \<and> tmp a = Some f
        \<and> handed a' = handed a @ [f] \<and> sealed a' = [line_a @ line_b @ line_c]
        \<and> tmp a' \<noteq> tmp a \<and> active a' = [] \<and> lines a' = 0 \<and> size' a' = 0)"
proof -
  have h1: "New [(''lineslimit'', VInt 3)] quiet = Done lim3" by (rule New_lim3)
  have h2: "io_ok quiet" by (simp add: io_ok_def quiet_def)
  have h3: "level_ok lim3" by (simp add: level_ok_def lim3_def)
  have h4: "unat (linesLimit lim3) \<le> 2 ^ 63" by (simp add: lim3_def)
  have h5: "list_all (\<lambda>b. length b < 2 ^ 63) ([line_a, line_b] @ [line_c])"
    by (simp add: line_a_def line_b_def line_c_def)
  have sp: "spec_writer (unat (linesLimit lim3)) [] [line_a, line_b] = ([], line_a @ line_b)"
    by (simp add: lim3_def line_a_def line_b_def count_newlines_def newLine_def)
  have h6: "unat (linesLimit lim3) \<le> count_newlines ((line_a @ line_b) @ line_c)"
    by (simp add: lim3_def line_a_def line_b_def line_c_def count_newlines_def newLine_def)
  obtain a a' f where r: "range_loop (fst (reset lim3)) [line_a, line_b] = Done a"
      "reader_body a line_c = Done a'"
      "sealed a = fst (spec_writer (unat (linesLimit lim3)) [] [line_a, line_b])"
      "active a = snd (spec_writer (unat (linesLimit lim3)) [] [line_a, line_b])"
      "tmp a = Some f"
      "if unat (linesLimit lim3) \<le> count_newlines (active a @ line_c)
          then handed a' = handed a @ [f] \<and> sealed a' = sealed a @ [active a @ line_c]
             \<and> tmp a' \<noteq> tmp a \<and> active a' = [] \<and> lines a' = 0 \<and> size' a' = 0
          else handed a' = handed a \<and> sealed a' = sealed a \<and> active a' = active a @ line_c
             \<and> lines a' = of_nat (count_newlines (active a @ line_c))
             \<and> size' a' = of_nat (length (active a @ line_c))"
    using rotation_per_crossing [OF h1 h2 h3 h4 h5] by blast
  have s0: "sealed a = []" and a0: "active a = line_a @ line_b" using r(3,4) sp by simp_all
  have c: "unat (linesLimit lim3) \<le> count_newlines (active a @ line_c)" using h6 a0 by simp
  have t: "handed a' = handed a @ [f]" "sealed a' = [line_a @ line_b @ line_c]"
      "tmp a' \<noteq> tmp a" "active a' = []" "lines a' = 0" "size' a' = 0"
    using r(6) c s0 a0 by simp_all
  have ex: "\<exists>a a' f. range_loop (fst (reset lim3)) [line_a, line_b] = Done a \<and> reader_body a line_c = Done a'
        \<and> sealed a = [] \<and> active a = line_a @ line_b \<and> tmp a = Some f
        \<and> handed a' = handed a @ [f] \<and> sealed a' = [line_a @ line_b @ line_c]
        \<and> tmp a' \<noteq> tmp a \<and> active a' = [] \<and> lines a' = 0 \<and> size' a' = 0"
    using r(1,2,5) s0 a0 t by blast
  have h6': "unat (linesLimit lim3) \<le> count_newlines (snd (spec_writer (unat (linesLimit lim3)) [] [line_a, line_b]) @ line_c)"
    using h6 sp by simp
  from h1 h2 h3 h4 h5 h6' ex show ?thesis by blast
qed

section \<open>The aggregator: runs and shutdown\<close>

lemma frame_bufCh [simp]:
  "seg_open (a\<lparr>bufCh := c\<rparr>) = seg_open a" "payload (a\<lparr>bufCh := c\<rparr>) = payload a"
  "sealed (a\<lparr>bufCh := c\<rparr>) = sealed a" "active (a\<lparr>bufCh := c\<rparr>) = active a"
  "level_ok (a\<lparr>bufCh := c\<rparr>) = level_ok a" "pristine (a\<lparr>bufCh := c\<rparr>) = pristine a"
  by (simp_all add: seg_open_def payload_def sealed_def active_def level_ok_def pristine_def
      cong: option.case_cong)

lemma frame_rd [simp]:
  "seg_open (a\<lparr>rd := r\<rparr>) = seg_open a" "payload (a\<lparr>rd := r\<rparr>) = payload a"
  "sealed (a\<lparr>rd := r\<rparr>) = sealed a" "active (a\<lparr>rd := r\<rparr>) = active a"
  "level_ok (a\<lparr>rd := r\<rparr>) = level_ok a"
  by (simp_all add: seg_open_def payload_def sealed_def active_def level_ok_def
      cong: option.case_cong)

lemma body_payload:
  assumes "seg_open a" and "io_ok (world a)" and "level_ok a"
  shows "\<exists>a'. reader_body a b = Done a' \<and> seg_open a' \<and> same_setup a a'
           \<and> payload a' = payload a @ b"
proof -
  obtain f where f: "tmp a = Some f"
    using assms(1) by (auto simp: seg_open_def split: option.splits)
  obtain a' where a': "reader_body a b = Done a'" "seg_open a'" "same_setup a a'"
    and rot: "if linesLimit a \<le> lines a + of_nat (count_newlines b)
          then handed a' = handed a @ [f] \<and> sealed a' = sealed a @ [active a @ b]
             \<and> active a' = [] \<and> lines a' = 0 \<and> size' a' = 0
          else handed a' = handed a \<and> sealed a' = sealed a \<and> active a' = active a @ b
             \<and> lines a' = lines a + of_nat (count_newlines b)
             \<and> size' a' = size' a + of_nat (length b)"
    using reader_body_ok [OF assms f, of b] by blast
  have "payload a' = payload a @ b"
    using rot by (simp add: payload_def split: if_splits)
  with a' show ?thesis by blast
qed

lemma range_loop_payload:
  assumes "seg_open a" and "io_ok (world a)" and "level_ok a"
  shows "\<exists>a'. range_loop a bs = Done a' \<and> seg_open a' \<and> same_setup a a'
           \<and> payload a' = payload a @ concat bs"
  using assms
proof (induction bs arbitrary: a)
  case Nil
  then show ?case by (simp add: same_setup_def)
next
  case (Cons b bs)
  obtain a1 where a1: "reader_body a b = Done a1" "seg_open a1" "same_setup a a1"
      "payload a1 = payload a @ b"
    using body_payload [OF Cons.prems, of b] by blast
  have io1: "io_ok (world a1)" using a1(3) Cons.prems(2) by (simp add: same_setup_io)
  have lv1: "level_ok a1" using a1(3) Cons.prems(3) by (simp add: same_setup_level)
  obtain a' where a': "range_loop a1 bs = Done a'" "seg_open a'" "same_setup a1 a'"
      "payload a' = payload a1 @ concat bs"
    using Cons.IH [OF a1(2) io1 lv1] by blast
  show ?case using a1 a' same_setup_trans [OF a1(3) a'(3)] by simp
qed

lemma Write_running:
  assumes "running a ws" and "Write a b = Done r"
  shows "running (fst r) (ws @ [b])"
proof -
  from assms(2) have r: "fst r = a\<lparr>bufCh := (bufCh a)\<lparr>chan_buf := chan_buf (bufCh a) @ [b]\<rparr>\<rparr>"
    by (auto simp: Write_def chan_send_def split: if_splits)
  show ?thesis using assms(1) unfolding r running_def by (auto split: if_splits)
qed

lemma reader_step_running:
  assumes "running a ws" and "reader_step a = Done a'"
  shows "running a' ws"
proof (cases "rd a = Starting")
  case True
  with assms(1) have pr: "pristine a" and io: "io_ok (world a)" and lv: "level_ok a"
    and q: "concat (chan_buf (bufCh a)) = concat ws" and op: "\<not> chan_closed (bufCh a)"
    by (simp_all add: running_def)
  note fr = first_reset [OF pr io lv]
  from assms(2) True have a': "a' = (fst (reset a))\<lparr>rd := Ranging\<rparr>"
    by (simp add: reader_step_def)
  have lv': "level_ok (fst (reset a))" using fr(6) lv by (simp add: same_setup_level)
  show ?thesis
    unfolding a' running_def using fr(1,2,3) fr(6) lv' q op io
    by (simp add: payload_def same_setup_def)
next
  case False
  with assms(1) have rg: "rd a = Ranging" and so: "seg_open a" and io: "io_ok (world a)"
    and lv: "level_ok a" and op: "\<not> chan_closed (bufCh a)"
    and q: "payload a @ concat (chan_buf (bufCh a)) = concat ws"
    by (simp_all add: running_def)
  from assms(2) rg op obtain b rest where buf: "chan_buf (bufCh a) = b # rest"
    and st: "reader_body (a\<lparr>bufCh := (bufCh a)\<lparr>chan_buf := rest\<rparr>\<rparr>) b = Done a'"
    by (auto simp: reader_step_def chan_recv_def split: list.splits)
  let ?a = "a\<lparr>bufCh := (bufCh a)\<lparr>chan_buf := rest\<rparr>\<rparr>"
  have "\<exists>x. reader_body ?a b = Done x \<and> seg_open x \<and> same_setup ?a x
           \<and> payload x = payload ?a @ b"
    by (rule body_payload) (simp_all add: so io lv)
  with st have p: "seg_open a'" "same_setup ?a a'" "payload a' = payload a @ b" by auto
  show ?thesis
    unfolding running_def using p q buf rg op io lv
    by (auto simp: same_setup_def level_ok_def)
qed

lemma exec_running:
  "running a ws \<Longrightarrow> exec a evs = Done a' \<Longrightarrow> running a' (ws @ written evs)"
proof (induction a evs arbitrary: ws rule: exec.induct)
  case (1 a)
  then show ?case by simp
next
  case (2 a b es)
  then obtain r where r: "Write a b = Done r" "exec (fst r) es = Done a'"
    by (cases "Write a b") simp_all
  from "2.IH" [OF Write_running [OF "2.prems"(1) r(1)] r(2)] show ?case by simp
next
  case (3 a es)
  then obtain a1 where a1: "reader_step a = Done a1" "exec a1 es = Done a'"
    by (cases "reader_step a") simp_all
  from "3.IH" [OF reader_step_running [OF "3.prems"(1) a1(1)] a1(2)] show ?case by simp
qed

lemma New_running:
  assumes "New cfg e = Done a0" and "io_ok e" and "level_ok a0"
  shows "running a0 []"
  using New_pristine [OF assms(1)] assms(2,3)
  by (simp add: running_def pristine_def make_chan_def)

lemma Exit_running:
  assumes "running a ws"
  shows "\<exists>a'. Exit a = Done a' \<and> concat (sealed a') = concat ws
           \<and> chan_closed (bufCh a') \<and> chan_buf (bufCh a') = [] \<and> rd a' = Finished
           \<and> handed a' \<noteq> [] \<and> distinct (handed a')"
proof -
  let ?c = "(bufCh a)\<lparr>chan_closed := True\<rparr>"
  let ?a0 = "a\<lparr>bufCh := ?c\<lparr>chan_buf := []\<rparr>\<rparr>"
  let ?q = "chan_buf (bufCh a)"
  from assms have io: "io_ok (world a)" and lv: "level_ok a" and op: "\<not> chan_closed (bufCh a)"
    by (simp_all add: running_def)
  have cl: "chan_close (bufCh a) = Done ?c" using op by (simp add: chan_close_def)
  have "\<exists>s. seg_open s \<and> io_ok (world s) \<and> level_ok s \<and> bufCh s = bufCh ?a0
          \<and> payload s @ concat ?q = concat ws
          \<and> reader_finish (a\<lparr>bufCh := ?c\<rparr>) = outcome_map (\<lambda>a'. a'\<lparr>rd := Finished\<rparr>) (range_loop s ?q)"
  proof (cases "rd a = Starting")
    case True
    with assms have pr: "pristine ?a0" and q: "concat ?q = concat ws"
      by (simp_all add: running_def)
    have io0: "io_ok (world ?a0)" and lv0: "level_ok ?a0" using io lv by simp_all
    note fr = first_reset [OF pr io0 lv0]
    have "reader_finish (a\<lparr>bufCh := ?c\<rparr>) =
        outcome_map (\<lambda>a'. a'\<lparr>rd := Finished\<rparr>) (range_loop (fst (reset ?a0)) ?q)"
      using True by (simp add: reader_finish_def)
    moreover have "io_ok (world (fst (reset ?a0)))" using fr(6) io0 by (simp add: same_setup_io)
    moreover have "level_ok (fst (reset ?a0))" using fr(6) lv0 by (simp add: same_setup_level)
    moreover have "bufCh (fst (reset ?a0)) = bufCh ?a0" using fr(6) by (simp add: same_setup_def)
    moreover have "payload (fst (reset ?a0)) @ concat ?q = concat ws"
      using fr(2,3) q by (simp add: payload_def)
    ultimately show ?thesis using fr(1) by blast
  next
    case False
    with assms have rg: "rd a = Ranging" and so: "seg_open a"
      and q: "payload a @ concat ?q = concat ws"
      by (simp_all add: running_def)
    have "reader_finish (a\<lparr>bufCh := ?c\<rparr>) =
        outcome_map (\<lambda>a'. a'\<lparr>rd := Finished\<rparr>) (range_loop ?a0 ?q)"
      using rg by (simp add: reader_finish_def)
    moreover have "seg_open ?a0" "io_ok (world ?a0)" "level_ok ?a0" "payload ?a0 @ concat ?q = concat ws"
      using so io lv q by simp_all
    ultimately show ?thesis by blast
  qed
  then obtain s where s: "seg_open s" "io_ok (world s)" "level_ok s" "bufCh s = bufCh ?a0"
      "payload s @ concat ?q = concat ws"
      "reader_finish (a\<lparr>bufCh := ?c\<rparr>) = outcome_map (\<lambda>a'. a'\<lparr>rd := Finished\<rparr>) (range_loop s ?q)"
    by blast
  obtain a1 where a1: "range_loop s ?q = Done a1" "seg_open a1" "same_setup s a1"
      "payload a1 = payload s @ concat ?q"
    using range_loop_payload [OF s(1,2,3), of ?q] by blast
  let ?a2 = "a1\<lparr>rd := Finished\<rparr>"
  have ex: "Exit a = Done (fst (flush ?a2))"
    unfolding Exit_def cl using s(6) a1(1) by simp
  obtain f where f: "tmp ?a2 = Some f"
    using a1(2) by (auto simp: seg_open_def split: option.splits)
  have so2: "seg_open ?a2" using a1(2) by simp
  have io2: "io_ok (world ?a2)" using a1(3) s(2) by (simp add: same_setup_def)
  note fl = flush_ok [OF so2 io2 f]
  have "concat (sealed (fst (flush ?a2))) = concat ws"
    using fl(2) a1(4) s(5) by (simp add: payload_def)
  moreover have "bufCh (fst (flush ?a2)) = bufCh ?a0" "rd (fst (flush ?a2)) = Finished"
    using fl(8) a1(3) s(4) by (simp_all add: same_setup_def)
  ultimately show ?thesis using ex fl(1,6) by simp
qed

text \<open>
  Claim C1. Take an aggregator made by \<^verbatim>\<open>New\<close>, in an environment where temp files can be
  created and written and with a compression level gzip accepts, and any run of it:
  calls of \<^verbatim>\<open>Write\<close> that returned and steps of the writer task, in any order. Then
  \<^verbatim>\<open>Exit\<close> returns, and when it does the files passed to the bound sink's \<^verbatim>\<open>SendFile\<close>
  hold, one after the other, exactly the bytes of the accepted blocks in the order they
  were accepted (up to compression). \<^verbatim>\<open>Exit\<close> has then closed the queue, the writer has
  drained it and finished, and at least one file, the last open segment, was handed off;
  no file was handed off twice.
\<close>

theorem no_data_loss_on_Exit:
  assumes "New cfg e = Done a0" and "io_ok e" and "level_ok a0" and "exec a0 evs = Done a"
  shows "\<exists>a'. Exit a = Done a' \<and> concat (sealed a') = concat (written evs)
           \<and> chan_closed (bufCh a') \<and> chan_buf (bufCh a') = [] \<and> rd a' = Finished
           \<and> handed a' \<noteq> [] \<and> distinct (handed a')"
  using Exit_running [OF exec_running [OF New_running [OF assms(1,2,3)] assms(4)]] by simp

lemmas eval_defs = word_le_nat_alt Write_def chan_send_def chan_recv_def chan_close_def
  reader_step_def reader_body_def reset_def flush_def TempFile_def file_Write_def gz_Write_def
  gz_Close_def output_SendFile_def reader_finish_def Exit_def sealed_def active_def Let_def
  lim3_def quiet_def line_a_def line_b_def line_c_def line_d_def
  count_newlines_def newLine_def

lemma scenario_run:
  "outcome_map (\<lambda>a. (sealed a, chan_buf (bufCh a))) (exec lim3 scenario)
     = Done ([line_a @ line_b @ line_c], [line_d])"
  by (simp add: eval_defs scenario_def)

lemma scenario_exit:
  "outcome_map sealed (outcome_bind (exec lim3 scenario) Exit)
     = Done [line_a @ line_b @ line_c, line_d]"
  by (simp add: eval_defs scenario_def)

theorem no_data_loss_on_Exit_witness:
  "New [(''lineslimit'', VInt 3)] quiet = Done lim3 \<and> io_ok quiet \<and> level_ok lim3
   \<and> (\<exists>a a'. exec lim3 scenario = Done a \<and> chan_buf (bufCh a) = [line_d]
         \<and> Exit a = Done a'
         \<and> concat (sealed a') = concat (written scenario)
         \<and> sealed a' = [line_a @ line_b @ line_c, line_d])"
proof -
  have h1: "New [(''lineslimit'', VInt 3)] quiet = Done lim3" by (rule New_lim3)
  have h2: "io_ok quiet" by (simp add: io_ok_def quiet_def)
  have h3: "level_ok lim3" by (simp add: level_ok_def lim3_def)
  obtain a where a: "exec lim3 scenario = Done a" and q: "chan_buf (bufCh a) = [line_d]"
    using scenario_run by (cases "exec lim3 scenario") simp_all
  obtain a' where a': "Exit a = Done a'" "concat (sealed a') = concat (written scenario)"
    using no_data_loss_on_Exit [OF h1 h2 h3 a] by blast
  have s: "sealed a' = [line_a @ line_b @ line_c, line_d]"
    using scenario_exit a a'(1) by simp
  from h1 h2 h3 a q a' s show ?thesis by blast
qed

section \<open>The aggregator: what Exit hands off\<close>

lemma reset_frame:
  "bufCh (fst (reset a)) = bufCh a" "rd (fst (reset a)) = rd a"
  "handed (fst (reset a)) = handed a"
  by (simp_all add: reset_def TempFile_def Let_def)

lemma flush_frame:
  "bufCh (fst (flush a)) = bufCh a" "rd (fst (flush a)) = rd a"
  "handed (fst (flush a)) = handed a @ (case tmp a of Some f \<Rightarrow> [f] | None \<Rightarrow> [])"
  by (simp_all add: flush_def gz_Close_def file_Write_def output_SendFile_def Let_def
      split: option.splits)

lemma reader_body_frame:
  assumes "reader_body a b = Done a'"
  shows "bufCh a' = bufCh a" and "rd a' = rd a"
proof -
  obtain a1 where a1: "(if compress a then gz_Write a b else Done (file_Write a (tmp a) b)) = Done a1"
    using assms unfolding reader_body_def
    by (cases "if compress a then gz_Write a b else Done (file_Write a (tmp a) b)") simp_all
  have f1: "bufCh a1 = bufCh a \<and> rd a1 = rd a"
    using a1 by (auto simp: gz_Write_def file_Write_def Let_def split: if_splits option.splits)
  have "bufCh a' = bufCh a \<and> rd a' = rd a"
    using assms f1 unfolding reader_body_def a1
    by (auto simp: Let_def reset_frame flush_frame split: if_splits)
  then show "bufCh a' = bufCh a" and "rd a' = rd a" by simp_all
qed

lemma range_loop_frame:
  "range_loop a bs = Done a' \<Longrightarrow> bufCh a' = bufCh a \<and> rd a' = rd a"
proof (induction bs arbitrary: a)
  case Nil
  then show ?case by simp
next
  case (Cons b bs)
  then obtain a1 where a1: "reader_body a b = Done a1" "range_loop a1 bs = Done a'"
    by (cases "reader_body a b") simp_all
  from reader_body_frame [OF a1(1)] Cons.IH [OF a1(2)] show ?case by simp
qed

lemma Exit_unfold:
  assumes "Exit a = Done a'"
  shows "\<not> chan_closed (bufCh a)"
    and "\<exists>a1. reader_finish (a\<lparr>bufCh := (bufCh a)\<lparr>chan_closed := True\<rparr>\<rparr>) = Done a1
            \<and> a' = fst (flush a1)"
proof -
  show nc: "\<not> chan_closed (bufCh a)"
    using assms by (auto simp: Exit_def chan_close_def split: if_splits)
  then have "chan_close (bufCh a) = Done ((bufCh a)\<lparr>chan_closed := True\<rparr>)"
    by (simp add: chan_close_def)
  with assms show "\<exists>a1. reader_finish (a\<lparr>bufCh := (bufCh a)\<lparr>chan_closed := True\<rparr>\<rparr>) = Done a1
            \<and> a' = fst (flush a1)"
    unfolding Exit_def
    by (cases "reader_finish (a\<lparr>bufCh := (bufCh a)\<lparr>chan_closed := True\<rparr>\<rparr>)") auto
qed

lemma reader_finish_closed:
  assumes "reader_finish a = Done a1"
  shows "bufCh a1 = (bufCh a)\<lparr>chan_buf := []\<rparr>"
proof (cases "rd a")
  case Starting
  with assms obtain x where x: "range_loop (fst (reset (a\<lparr>bufCh := (bufCh a)\<lparr>chan_buf := []\<rparr>\<rparr>)))
      (chan_buf (bufCh a)) = Done x" and a1: "a1 = x\<lparr>rd := Finished\<rparr>"
    unfolding reader_finish_def
    by (cases "range_loop (fst (reset (a\<lparr>bufCh := (bufCh a)\<lparr>chan_buf := []\<rparr>\<rparr>))) (chan_buf (bufCh a))")
      (auto simp: Let_def)
  from range_loop_frame [OF x] a1 show ?thesis by (simp add: reset_frame)
next
  case Ranging
  with assms obtain x where x: "range_loop (a\<lparr>bufCh := (bufCh a)\<lparr>chan_buf := []\<rparr>\<rparr>)
      (chan_buf (bufCh a)) = Done x" and a1: "a1 = x\<lparr>rd := Finished\<rparr>"
    unfolding reader_finish_def
    by (cases "range_loop (a\<lparr>bufCh := (bufCh a)\<lparr>chan_buf := []\<rparr>\<rparr>) (chan_buf (bufCh a))")
      (auto simp: Let_def)
  from range_loop_frame [OF x] a1 show ?thesis by simp
next
  case Finished
  with assms show ?thesis by (simp add: reader_finish_def)
qed

lemma Exit_closes:
  assumes "Exit a = Done a'"
  shows "chan_closed (bufCh a')"
proof -
  from Exit_unfold(2) [OF assms] obtain a1
    where a1: "reader_finish (a\<lparr>bufCh := (bufCh a)\<lparr>chan_closed := True\<rparr>\<rparr>) = Done a1"
      "a' = fst (flush a1)" by blast
  from reader_finish_closed [OF a1(1)] a1(2) show ?thesis by (simp add: flush_frame)
qed

lemma Exit_on_closed: "chan_closed (bufCh a) \<Longrightarrow> Exit a = Panic"
  by (simp add: Exit_def chan_close_def)

text \<open>
  Claim C8, as the code has it. When \<^verbatim>\<open>Exit\<close> returns, its final \<^verbatim>\<open>flush\<close> has passed
  the file that is open after the drain to \<^verbatim>\<open>SendFile\<close>, once, whatever the segment
  holds; there is no handoff only when no file is open (its creation failed). For an
  aggregator whose reader is in its loop with an empty queue, the file handed off is the
  one open when \<^verbatim>\<open>Exit\<close> was called, with the byte counter and the files' contents as
  they were: a segment with zero bytes is handed off like any other.
\<close>

theorem Exit_hands_off_open_file:
  assumes "Exit a = Done a'"
  shows "\<exists>a1. reader_finish (a\<lparr>bufCh := (bufCh a)\<lparr>chan_closed := True\<rparr>\<rparr>) = Done a1
          \<and> handed a' = handed a1 @ (case tmp a1 of Some f \<Rightarrow> [f] | None \<Rightarrow> [])
          \<and> (rd a = Ranging \<and> chan_buf (bufCh a) = [] \<longrightarrow>
                tmp a1 = tmp a \<and> handed a1 = handed a \<and> size' a1 = size' a
              \<and> contents a1 = contents a)"
proof -
  from Exit_unfold(2) [OF assms] obtain a1
    where a1: "reader_finish (a\<lparr>bufCh := (bufCh a)\<lparr>chan_closed := True\<rparr>\<rparr>) = Done a1"
      "a' = fst (flush a1)" by blast
  have h: "handed a' = handed a1 @ (case tmp a1 of Some f \<Rightarrow> [f] | None \<Rightarrow> [])"
    using a1(2) by (simp add: flush_frame)
  have e: "rd a = Ranging \<and> chan_buf (bufCh a) = [] \<longrightarrow>
      tmp a1 = tmp a \<and> handed a1 = handed a \<and> size' a1 = size' a \<and> contents a1 = contents a"
    using a1(1) by (auto simp: reader_finish_def Let_def)
  from a1(1) h e show ?thesis by blast
qed

lemma lim3_ranging_eq:
  "lim3_ranging = lim3\<lparr>tmp := Some 0, rd := Ranging, temp_calls := 1\<rparr>"
  by (simp add: lim3_ranging_def lim3_def reset_def TempFile_def quiet_def Let_def fun_eq_iff)

lemma lim3_ranging_reached: "exec lim3 [EvReader] = Done lim3_ranging"
  by (simp add: reader_step_def lim3_ranging_def lim3_def)

lemma Exit_lim3_ranging:
  "outcome_map (\<lambda>a. (handed a, sealed a, size' a)) (Exit lim3_ranging) = Done ([0], [[]], 0)"
  by (simp add: lim3_ranging_eq eval_defs)

theorem Exit_hands_off_open_file_witness:
  "\<exists>a' a1. Exit lim3_ranging = Done a'
     \<and> rd lim3_ranging = Ranging \<and> chan_buf (bufCh lim3_ranging) = []
     \<and> size' lim3_ranging = 0 \<and> contents lim3_ranging 0 = [] \<and> tmp lim3_ranging = Some 0
     \<and> reader_finish (lim3_ranging\<lparr>bufCh := (bufCh lim3_ranging)\<lparr>chan_closed := True\<rparr>\<rparr>) = Done a1
     \<and> tmp a1 = Some 0 \<and> handed a' = handed a1 @ [0] \<and> handed a' = [0]"
proof -
  obtain a' where a': "Exit lim3_ranging = Done a'" and h: "handed a' = [0]"
    using Exit_lim3_ranging by (cases "Exit lim3_ranging") simp_all
  have s: "rd lim3_ranging = Ranging" "chan_buf (bufCh lim3_ranging) = []"
    "size' lim3_ranging = 0" "contents lim3_ranging 0 = []" "tmp lim3_ranging = Some 0"
    by (simp_all add: lim3_ranging_eq lim3_def)
  obtain a1 where a1:
    "reader_finish (lim3_ranging\<lparr>bufCh := (bufCh lim3_ranging)\<lparr>chan_closed := True\<rparr>\<rparr>) = Done a1"
    "handed a' = handed a1 @ (case tmp a1 of Some f \<Rightarrow> [f] | None \<Rightarrow> [])"
    "tmp a1 = tmp lim3_ranging"
    using Exit_hands_off_open_file [OF a'] s(1,2) by blast
  have "tmp a1 = Some 0" "handed a' = handed a1 @ [0]" using a1(2,3) s(5) by simp_all
  with a' s a1(1) h show ?thesis by blast
qed

text \<open>
  Claim C8 fails as stated: right after \<^verbatim>\<open>New\<close> and the reader's start the open segment
  has received zero bytes, and \<^verbatim>\<open>Exit\<close> hands its empty file to \<^verbatim>\<open>SendFile\<close>.
\<close>

theorem empty_segment_handed_off:
  "New [(''lineslimit'', VInt 3)] quiet = Done lim3 \<and> exec lim3 [EvReader] = Done lim3_ranging
   \<and> size' lim3_ranging = 0 \<and> active lim3_ranging = [] \<and> handed lim3_ranging = []
   \<and> outcome_map (\<lambda>a. (handed a, sealed a, size' a)) (Exit lim3_ranging) = Done ([0], [[]], 0)"
  using New_lim3 lim3_ranging_reached Exit_lim3_ranging
  by (simp add: lim3_ranging_eq lim3_def active_def)

section \<open>Exit called twice\<close>

lemma sendFile_fileCh: "fileCh (fst (sendFile p f)) = fileCh p"
  using sendFile_loop_outcome [of p f 0 "fst (sendFile p f)" "snd (sendFile p f)"]
  by (simp add: sendFile_def)

lemma files_worker_fileCh: "fileCh (files_worker p fs) = fileCh p"
  by (induction fs arbitrary: p) (simp_all add: sendFile_fileCh)

lemma AwsS3_Exit_closes:
  assumes "AwsS3_Exit p = Done p'"
  shows "chan_closed (fileCh p')"
proof -
  from assms have nc: "\<not> chan_closed (fileCh p)" "\<not> chan_closed (bytesCh p)"
    by (auto simp: AwsS3_Exit_def chan_close_def split: if_splits)
  let ?fc = "(fileCh p)\<lparr>chan_closed := True\<rparr>"
  let ?bc = "(bytesCh p)\<lparr>chan_closed := True\<rparr>"
  from assms nc obtain p1 where
    p': "p' = (files_worker (p1\<lparr>fileCh := ?fc\<lparr>chan_buf := []\<rparr>\<rparr>) (chan_buf ?fc))\<lparr>done_taken := True\<rparr>"
    unfolding AwsS3_Exit_def chan_close_def
    by (cases "bytes_worker (p\<lparr>fileCh := ?fc, bytesCh := ?bc\<lparr>chan_buf := []\<rparr>\<rparr>) (chan_buf ?bc)")
      (auto split: if_splits)
  show ?thesis unfolding p' by (simp add: files_worker_fileCh)
qed

lemma AwsS3_Exit_on_closed: "chan_closed (fileCh p) \<Longrightarrow> AwsS3_Exit p = Panic"
  by (simp add: AwsS3_Exit_def chan_close_def)

lemma Cmd_Exit_again:
  assumes "Cmd_Exit c = Done c'"
  shows "Cmd_Exit c' = (if started c then Blocked else Panic)"
proof -
  let ?c1 = "c\<lparr>exiting := True\<rparr>"
  obtain c2 where c2: "(if started ?c1 then
           (case listener ?c1 of
              Supervising \<Rightarrow> if child_stops ?c1 then Done (?c1\<lparr>listener := Gone\<rparr>) else Blocked
            | Parked \<Rightarrow> Done (?c1\<lparr>listener := Gone\<rparr>)
            | Gone \<Rightarrow> Blocked)
         else Done ?c1) = Done c2"
    and rest: "(case aggregator c2 of None \<Rightarrow> Panic
              | Some a \<Rightarrow> outcome_map (\<lambda>a'. c2\<lparr>aggregator := Some a'\<rparr>) (Exit a)) = Done c'"
    using assms unfolding Cmd_Exit_def Let_def
    by (cases "(if started ?c1 then
           (case listener ?c1 of
              Supervising \<Rightarrow> if child_stops ?c1 then Done (?c1\<lparr>listener := Gone\<rparr>) else Blocked
            | Parked \<Rightarrow> Done (?c1\<lparr>listener := Gone\<rparr>)
            | Gone \<Rightarrow> Blocked)
         else Done ?c1)") simp_all
  have c2p: "started c2 = started c" "started c \<longrightarrow> listener c2 = Gone"
    using c2 by (auto split: if_splits listen_pc.splits)
  from rest obtain a a' where a: "aggregator c2 = Some a" "Exit a = Done a'"
    "c' = c2\<lparr>aggregator := Some a'\<rparr>"
    by (cases "aggregator c2"; cases "Exit (the (aggregator c2))") auto
  have cl: "Exit a' = Panic" using Exit_on_closed [OF Exit_closes [OF a(2)]] .
  show ?thesis
    unfolding Cmd_Exit_def Let_def a(3) using c2p cl by auto
qed

text \<open>
  Claim C9, as the code has it. \<^verbatim>\<open>Exit\<close> can be called once: after an \<^verbatim>\<open>Exit\<close> that
  returned, a second \<^verbatim>\<open>Exit\<close> on the aggregator panics and so does one on the sink
  (each closes a channel that is already closed), and a second \<^verbatim>\<open>Exit\<close> on the producer
  waits for ever on \<^verbatim>\<open>c.done\<close> when a child process had been started, and otherwise
  panics in the aggregator's \<^verbatim>\<open>Exit\<close>.
\<close>

theorem second_Exit_does_not_return:
  "(Exit a = Done a' \<longrightarrow> Exit a' = Panic)
   \<and> (AwsS3_Exit p = Done p' \<longrightarrow> AwsS3_Exit p' = Panic)
   \<and> (Cmd_Exit c = Done c' \<longrightarrow> Cmd_Exit c' = (if started c then Blocked else Panic))"
  using Exit_on_closed [OF Exit_closes] AwsS3_Exit_on_closed [OF AwsS3_Exit_closes]
    Cmd_Exit_again by blast

lemma first_Exits_return:
  "returned (Exit lim3_ranging)" "returned (AwsS3_Exit (AwsS3_New True always_timeout {}))"
  "returned (Cmd_Exit runner)" "returned (Cmd_Exit idle_runner)"
  by (simp_all add: lim3_ranging_eq eval_defs AwsS3_Exit_def AwsS3_New_def make_chan_def
      Cmd_Exit_def runner_def idle_runner_def)

theorem second_Exit_does_not_return_witness:
  "(\<exists>a'. Exit lim3_ranging = Done a' \<and> Exit a' = Panic)
   \<and> (\<exists>p'. AwsS3_Exit (AwsS3_New True always_timeout {}) = Done p' \<and> AwsS3_Exit p' = Panic)
   \<and> (\<exists>c'. Cmd_Exit runner = Done c' \<and> started runner \<and> Cmd_Exit c' = Blocked)
   \<and> (\<exists>c'. Cmd_Exit idle_runner = Done c' \<and> \<not> started idle_runner \<and> Cmd_Exit c' = Panic)"
proof -
  obtain a' where a: "Exit lim3_ranging = Done a'"
    using first_Exits_return(1) by (cases "Exit lim3_ranging") simp_all
  obtain p' where p: "AwsS3_Exit (AwsS3_New True always_timeout {}) = Done p'"
    using first_Exits_return(2) by (cases "AwsS3_Exit (AwsS3_New True always_timeout {})") simp_all
  obtain c' where c: "Cmd_Exit runner = Done c'"
    using first_Exits_return(3) by (cases "Cmd_Exit runner") simp_all
  obtain d' where d: "Cmd_Exit idle_runner = Done d'"
    using first_Exits_return(4) by (cases "Cmd_Exit idle_runner") simp_all
  have s: "started runner" "\<not> started idle_runner" by (simp_all add: runner_def idle_runner_def)
  have "Exit a' = Panic" using second_Exit_does_not_return [of lim3_ranging a'] a by simp
  moreover have "AwsS3_Exit p' = Panic"
    using second_Exit_does_not_return [of _ _ "AwsS3_New True always_timeout {}" p'] p by simp
  moreover have "Cmd_Exit c' = Blocked"
    using second_Exit_does_not_return [of _ _ _ _ runner c'] c s by simp
  moreover have "Cmd_Exit d' = Panic"
    using second_Exit_does_not_return [of _ _ _ _ idle_runner d'] d s by simp
  ultimately show ?thesis using a p c d s by blast
qed

text \<open>
  Claim C9 fails as stated: for an aggregator, a sink and two producers whose first
  \<^verbatim>\<open>Exit\<close> returns, the second call panics or waits for ever.
\<close>

theorem second_Exit_panics_or_blocks:
  "returned (Exit lim3_ranging) \<and> outcome_bind (Exit lim3_ranging) Exit = Panic
   \<and> returned (AwsS3_Exit (AwsS3_New True always_timeout {}))
   \<and> outcome_bind (AwsS3_Exit (AwsS3_New True always_timeout {})) AwsS3_Exit = Panic
   \<and> returned (Cmd_Exit runner) \<and> outcome_bind (Cmd_Exit runner) Cmd_Exit = Blocked
   \<and> returned (Cmd_Exit idle_runner) \<and> outcome_bind (Cmd_Exit idle_runner) Cmd_Exit = Panic"
  by (simp add: lim3_ranging_eq eval_defs AwsS3_Exit_def AwsS3_New_def make_chan_def
      Cmd_Exit_def runner_def idle_runner_def)

section \<open>Write and the inbound queue\<close>

lemma Write_Done:
  "Write x y = Done r \<Longrightarrow>
     \<not> chan_closed (bufCh x) \<and> length (chan_buf (bufCh x)) < chan_cap (bufCh x)
   \<and> r = (x\<lparr>bufCh := (bufCh x)\<lparr>chan_buf := chan_buf (bufCh x) @ [y]\<rparr>\<rparr>, int (length y), None)"
  by (auto simp: Write_def chan_send_def split: if_splits)

lemma Writes_fit:
  "\<not> chan_closed (bufCh a) \<Longrightarrow> length (chan_buf (bufCh a)) + length bs \<le> chan_cap (bufCh a) \<Longrightarrow>
   exec a (map EvWrite bs) = Done (a\<lparr>bufCh := (bufCh a)\<lparr>chan_buf := chan_buf (bufCh a) @ bs\<rparr>\<rparr>)"
proof (induction bs arbitrary: a)
  case Nil
  then show ?case by simp
next
  case (Cons b bs)
  let ?a = "a\<lparr>bufCh := (bufCh a)\<lparr>chan_buf := chan_buf (bufCh a) @ [b]\<rparr>\<rparr>"
  have w: "Write a b = Done (?a, int (length b), None)"
    using Cons.prems by (simp add: Write_def chan_send_def)
  have "exec ?a (map EvWrite bs) =
      Done (?a\<lparr>bufCh := (bufCh ?a)\<lparr>chan_buf := chan_buf (bufCh ?a) @ bs\<rparr>\<rparr>)"
    by (rule Cons.IH) (use Cons.prems in simp_all)
  with w show ?case by simp
qed

text \<open>
  Claim C7. A send on a full buffered channel cannot proceed; the model records this as
  the outcome \<open>Blocked\<close>. On an aggregator whose inbound queue is open, empty and of
  capacity \<open>N\<close>, with no step of the writer task in between, \<open>N\<close> calls of \<^verbatim>\<open>Write\<close>
  (in whatever order the concurrent callers reach the channel) all return, leaving the
  \<open>N\<close> blocks queued; one more call then waits. Once the writer, in its loop, has taken
  a block from the queue, that call goes through and its block is queued last. Whenever
  \<^verbatim>\<open>Write\<close> returns, it returns the block's length and \<^verbatim>\<open>nil\<close> and the block has been
  added to the queue: no block is dropped and no error is returned for a full queue.
\<close>

theorem Write_backpressure:
  assumes "\<not> chan_closed (bufCh a)" and "chan_buf (bufCh a) = []"
    and "length bs = chan_cap (bufCh a)"
  shows "exec a (map EvWrite bs) = Done (a\<lparr>bufCh := (bufCh a)\<lparr>chan_buf := bs\<rparr>\<rparr>)
       \<and> Write (a\<lparr>bufCh := (bufCh a)\<lparr>chan_buf := bs\<rparr>\<rparr>) b = Blocked
       \<and> (\<forall>a''. rd a = Ranging \<and> reader_step (a\<lparr>bufCh := (bufCh a)\<lparr>chan_buf := bs\<rparr>\<rparr>) = Done a'' \<longrightarrow>
             Write a'' b =
               Done (a''\<lparr>bufCh := (bufCh a)\<lparr>chan_buf := tl bs @ [b]\<rparr>\<rparr>, int (length b), None))
       \<and> (\<forall>x y r. Write x y = Done r \<longrightarrow>
             snd r = (int (length y), None)
           \<and> chan_buf (bufCh (fst r)) = chan_buf (bufCh x) @ [y])"
proof -
  let ?a = "a\<lparr>bufCh := (bufCh a)\<lparr>chan_buf := bs\<rparr>\<rparr>"
  have 1: "exec a (map EvWrite bs) = Done ?a"
    using Writes_fit [of a bs] assms by simp
  have 2: "Write ?a b = Blocked"
    using assms by (simp add: Write_def chan_send_def)
  have 3: "Write a'' b = Done (a''\<lparr>bufCh := (bufCh a)\<lparr>chan_buf := tl bs @ [b]\<rparr>\<rparr>, int (length b), None)"
    if rg: "rd a = Ranging" and st: "reader_step ?a = Done a''" for a''
  proof -
    from st rg assms(1) obtain x rest where bs: "bs = x # rest"
      and body: "reader_body (a\<lparr>bufCh := (bufCh a)\<lparr>chan_buf := rest\<rparr>\<rparr>) x = Done a''"
      by (auto simp: reader_step_def chan_recv_def split: list.splits)
    have "bufCh a'' = (bufCh a)\<lparr>chan_buf := rest\<rparr>"
      using reader_body_frame(1) [OF body] by simp
    then show ?thesis
      using assms(1,3) bs by (simp add: Write_def chan_send_def)
  qed
  have 4: "snd r = (int (length y), None) \<and> chan_buf (bufCh (fst r)) = chan_buf (bufCh x) @ [y]"
    if "Write x y = Done r" for x y r
    using Write_Done [OF that] by simp
  from 1 2 3 4 show ?thesis by blast
qed

lemma replicate_4096: "replicate 4096 x = x # replicate 4095 x"
  by (simp add: numeral_eq_Suc)

theorem Write_backpressure_witness:
  "\<not> chan_closed (bufCh lim3_ranging) \<and> chan_buf (bufCh lim3_ranging) = []
   \<and> length (replicate 4096 line_a) = chan_cap (bufCh lim3_ranging)
   \<and> exec lim3_ranging (map EvWrite (replicate 4096 line_a)) =
       Done (lim3_ranging\<lparr>bufCh := (bufCh lim3_ranging)\<lparr>chan_buf := replicate 4096 line_a\<rparr>\<rparr>)
   \<and> Write (lim3_ranging\<lparr>bufCh := (bufCh lim3_ranging)\<lparr>chan_buf := replicate 4096 line_a\<rparr>\<rparr>)
        line_b = Blocked
   \<and> rd lim3_ranging = Ranging
   \<and> (\<exists>a''. reader_step
               (lim3_ranging\<lparr>bufCh := (bufCh lim3_ranging)\<lparr>chan_buf := replicate 4096 line_a\<rparr>\<rparr>)
             = Done a''
           \<and> Write a'' line_b =
               Done (a''\<lparr>bufCh := (bufCh lim3_ranging)
                          \<lparr>chan_buf := replicate 4095 line_a @ [line_b]\<rparr>\<rparr>, 2, None))"
proof -
  have h1: "\<not> chan_closed (bufCh lim3_ranging)" and h2: "chan_buf (bufCh lim3_ranging) = []"
    and h3: "length (replicate 4096 line_a) = chan_cap (bufCh lim3_ranging)"
    and h4: "rd lim3_ranging = Ranging"
    by (simp_all add: lim3_ranging_eq lim3_def)
  note t = Write_backpressure [OF h1 h2 h3, of line_b]
  let ?full = "lim3_ranging\<lparr>bufCh := (bufCh lim3_ranging)\<lparr>chan_buf := replicate 4096 line_a\<rparr>\<rparr>"
  have "returned (reader_step ?full)"
    by (simp add: lim3_ranging_eq replicate_4096 eval_defs)
  then obtain a'' where st: "reader_step ?full = Done a''"
    by (cases "reader_step ?full") simp_all
  have w: "Write a'' line_b =
      Done (a''\<lparr>bufCh := (bufCh lim3_ranging)\<lparr>chan_buf := tl (replicate 4096 line_a) @ [line_b]\<rparr>\<rparr>,
            int (length line_b), None)"
    using t h4 st by blast
  have w': "Write a'' line_b =
      Done (a''\<lparr>bufCh := (bufCh lim3_ranging)\<lparr>chan_buf := replicate 4095 line_a @ [line_b]\<rparr>\<rparr>, 2, None)"
    using w by (simp add: replicate_4096 line_b_def)
  from h1 h2 h3 h4 t st w' show ?thesis by blast
qed

text \<open>
  Claim C10. Whenever \<^verbatim>\<open>Write\<close> returns, it returns the length of the block and
  \<^verbatim>\<open>nil\<close>, and all it has changed is the queue, which now ends with the block. What it
  returns is the same in every environment: the faults of the temp-file and compression
  writes happen later, in the writer task, whose results go nowhere.
\<close>

theorem Write_result_ignores_io:
  "(Write a b = Done r \<longrightarrow>
      snd r = (int (length b), None)
    \<and> fst r = a\<lparr>bufCh := (bufCh a)\<lparr>chan_buf := chan_buf (bufCh a) @ [b]\<rparr>\<rparr>)
   \<and> outcome_map snd (Write (a\<lparr>world := e\<rparr>) b) = outcome_map snd (Write a b)"
proof -
  have 1: "Write a b = Done r \<longrightarrow>
      snd r = (int (length b), None)
    \<and> fst r = a\<lparr>bufCh := (bufCh a)\<lparr>chan_buf := chan_buf (bufCh a) @ [b]\<rparr>\<rparr>"
    using Write_Done [of a b r] by auto
  have 2: "outcome_map snd (Write (a\<lparr>world := e\<rparr>) b) = outcome_map snd (Write a b)"
    by (simp add: Write_def chan_send_def)
  from 1 2 show ?thesis by simp
qed

theorem Write_result_ignores_io_witness:
  "Write lim3_disk_full line_a =
     Done (lim3_disk_full\<lparr>bufCh := (bufCh lim3_disk_full)\<lparr>chan_buf := [line_a]\<rparr>\<rparr>, 2, None)
   \<and> outcome_map snd (Write lim3_disk_full line_a) = outcome_map snd (Write lim3 line_a)
   \<and> outcome_map (\<lambda>a. (contents a 0, chan_buf (bufCh a), lines a))
       (exec lim3_disk_full [EvWrite line_a, EvReader, EvReader]) = Done ([], [], 1)"
proof -
  have r: "returned (Write lim3_disk_full line_a)"
    by (simp add: lim3_disk_full_def lim3_def Write_def chan_send_def)
  then obtain r where w: "Write lim3_disk_full line_a = Done r"
    by (cases "Write lim3_disk_full line_a") simp_all
  have b: "chan_buf (bufCh lim3_disk_full) = []" by (simp add: lim3_disk_full_def lim3_def)
  have "snd r = (int (length line_a), None)"
    "fst r = lim3_disk_full\<lparr>bufCh := (bufCh lim3_disk_full)\<lparr>chan_buf := chan_buf (bufCh lim3_disk_full) @ [line_a]\<rparr>\<rparr>"
    using Write_result_ignores_io [of lim3_disk_full line_a r] w by simp_all
  then have 1: "Write lim3_disk_full line_a =
     Done (lim3_disk_full\<lparr>bufCh := (bufCh lim3_disk_full)\<lparr>chan_buf := [line_a]\<rparr>\<rparr>, 2, None)"
    using w b by (cases r) (simp add: line_a_def)
  have 2: "outcome_map snd (Write lim3_disk_full line_a) = outcome_map snd (Write lim3 line_a)"
    using Write_result_ignores_io [of lim3 line_a _ disk_full] by (simp add: lim3_disk_full_def)
  have 3: "outcome_map (\<lambda>a. (contents a 0, chan_buf (bufCh a), lines a))
       (exec lim3_disk_full [EvWrite line_a, EvReader, EvReader]) = Done ([], [], 1)"
    by (simp add: lim3_disk_full_def disk_full_def eval_defs)
  from 1 2 3 show ?thesis by simp
qed

end
